theory Spec2Isabelle
  imports Main
begin

section \<open>Identities, keys and values\<close>

text \<open>
  Objects, reactions and dependency sets are JavaScript objects compared by
  identity; each kind gets an address space of its own.  A \<open>target\<close> is the
  address of a raw (unwrapped) object, an \<open>eid\<close> the identity of a
  \<open>ReactiveEffect\<close>, a \<open>dep_id\<close> the identity of a \<open>Dep\<close>
  (a \<open>Set<ReactiveEffect>\<close>), a \<open>fn_id\<close> the identity of a user function
  (the body handed to \<open>effect\<close>, a scheduler, an \<open>onStop\<close> hook, a getter)
  and a \<open>cid\<close> the identity of a computed ref.
\<close>

type_synonym target = nat
type_synonym eid = nat
type_synonym dep_id = nat
type_synonym fn_id = nat
type_synonym cid = nat

text \<open>
  Property keys are strings or symbols.  \<open>WellKnown n\<close> is the symbol stored
  in the own property \<open>n\<close> of the \<open>Symbol\<close> constructor
  (\<open>Symbol.iterator\<close>, \<open>Symbol.isConcatSpreadable\<close>, ...); \<open>Iterate\<close> is the
  symbol created by \<open>Symbol('iterate')\<close> in effect.ts; \<open>UserSymbol\<close> is any
  other symbol.
\<close>

datatype symbol = WellKnown string | Iterate | UserSymbol nat

datatype key = KStr string | KSym symbol

datatype OperationTypes = SET | ADD | DELETE | CLEAR | GET | HAS | ITERATE

definition ITERATE_KEY :: key where
  "ITERATE_KEY = KSym Iterate"

text \<open>
  Values.  Numbers are integers (no floating point).  \<open>VObj a\<close> is the
  raw object at address \<open>a\<close>; \<open>VProxy a ro\<close> is its observed wrapper, the
  read-only one when \<open>ro\<close> holds; \<open>VRef a\<close> is a plain ref whose
  identity is the address \<open>a\<close>; \<open>VComputed c\<close> is a computed ref;
  \<open>VFun f\<close> a plain function and \<open>VEffect e\<close> the callable handle of a
  reaction.
\<close>

datatype val =
    VUndefined
  | VNull
  | VBool bool
  | VNum int
  | VStr string
  | VObj target
  | VProxy target bool
  | VRef target
  | VComputed cid
  | VFun fn_id
  | VEffect eid

text \<open>
  The result of a call: a returned value, a thrown value, or (in the
  fuel-bounded interpreter at the end) no result within the fuel.
\<close>

datatype outcome = Ret val | Thrown val | OutOfFuel

section \<open>The engine state\<close>

text \<open>
  \<open>effect.scheduler\<close> is either a user function or the closure that
  \<open>computed\<close> installs for the computed ref \<open>c\<close>.
\<close>

datatype sched = UserScheduler fn_id | ComputedScheduler cid

text \<open>The fields of the \<open>ReactiveEffect\<close> interface (effect.ts).\<close>

record ReactiveEffect =
  active :: bool
  raw :: fn_id
  deps :: "dep_id list"
  computed :: bool
  scheduler :: "sched option"
  onStop :: "fn_id option"

text \<open>An ordinary object: its own data properties in insertion order.\<close>

record obj =
  props :: "(key \<times> val) list"
  isArray :: bool
  nonReactive :: bool

text \<open>The closure variables of one \<open>computed\<close> call (computed.ts).\<close>

record computed_cell =
  dirty :: bool
  cvalue :: val
  runner :: eid
  setter :: "fn_id option"

text \<open>
  The process-wide singletons.  \<open>targetMap\<close> sends a target to its
  \<open>Map\<close> from keys to deps; that inner map is an association list in
  insertion order (\<open>Map.forEach\<close> visits it in that order) whose keys are
  \<open>key option\<close>, \<open>None\<close> being the key \<open>undefined\<close>.  The deps
  themselves live in \<open>depStore\<close>: a \<open>Set\<close> is a duplicate-free list in
  insertion order, and both the inner maps and \<open>effect.deps\<close> hold
  \<open>dep_id\<close>s, so the sharing of one \<open>Set\<close> object between the two is
  explicit.  \<open>calls\<close>, \<open>fired\<close> and \<open>readLog\<close> are ghost fields: the
  user functions called so far, in order; the trigger events written by
  \<open>record_trigger\<close> below; and the locations that user code has read
  through a wrapper, each with the running stack at the time of the read.
\<close>

record state =
  targetMap :: "target \<Rightarrow> (key option \<times> dep_id) list option"
  depStore :: "dep_id \<Rightarrow> eid list"
  nextDep :: dep_id
  effectTable :: "eid \<Rightarrow> ReactiveEffect"
  nextEffect :: eid
  activeReactiveEffectStack :: "eid list"
  shouldTrack :: bool
  heap :: "target \<Rightarrow> obj"
  refStore :: "target \<Rightarrow> val"
  computedTable :: "cid \<Rightarrow> computed_cell"
  nextComputed :: cid
  LOCKED :: bool
  calls :: "fn_id list"
  fired :: "(target \<times> OperationTypes \<times> key option) list"
  readLog :: "(eid list \<times> target \<times> key option) list"

text \<open>
  The semantics of calling user functions is a parameter of every engine
  function that can reach user code: \<open>call f st\<close> is the outcome and the
  state after running the function \<open>f\<close> from \<open>st\<close>.  The interpreter of
  the last section instantiates it.
\<close>

type_synonym caller = "fn_id \<Rightarrow> state \<Rightarrow> outcome \<times> state"

definition invoke :: "caller \<Rightarrow> fn_id \<Rightarrow> state \<Rightarrow> outcome \<times> state" where
  "invoke call f st = call f (st\<lparr>calls := calls st @ [f]\<rparr>)"

text \<open>Sequencing that stops at the first throw, as an exception does.\<close>

definition andThen ::
  "outcome \<times> state \<Rightarrow> (val \<Rightarrow> state \<Rightarrow> outcome \<times> state) \<Rightarrow> outcome \<times> state" where
  "andThen r k = (case r of (Ret v, st) \<Rightarrow> k v st | (bad, st) \<Rightarrow> (bad, st))"

text \<open>\<open>Set.prototype.add\<close>, \<open>Set.prototype.delete\<close> and \<open>forEach\<close>.\<close>

definition set_add :: "'a \<Rightarrow> 'a list \<Rightarrow> 'a list" where
  "set_add x xs = (if x \<in> set xs then xs else xs @ [x])"

definition set_delete :: "'a \<Rightarrow> 'a list \<Rightarrow> 'a list" where
  "set_delete x xs = removeAll x xs"

fun forEach :: "('a \<Rightarrow> state \<Rightarrow> outcome \<times> state) \<Rightarrow> 'a list \<Rightarrow> state \<Rightarrow> outcome \<times> state" where
  "forEach f [] st = (Ret VUndefined, st)"
| "forEach f (x # xs) st =
     (case f x st of
        (Ret v, st') \<Rightarrow> forEach f xs st'
      | (bad, st') \<Rightarrow> (bad, st'))"

section \<open>effect.ts: cleanup, track, run, stop\<close>

definition the_effect :: "state \<Rightarrow> eid \<Rightarrow> ReactiveEffect" where
  "the_effect st e = effectTable st e"

definition set_deps :: "eid \<Rightarrow> dep_id list \<Rightarrow> state \<Rightarrow> state" where
  "set_deps e ds st =
     st\<lparr>effectTable := (effectTable st)(e := (effectTable st e)\<lparr>deps := ds\<rparr>)\<rparr>"

definition dep_delete :: "eid \<Rightarrow> state \<Rightarrow> dep_id \<Rightarrow> state" where
  "dep_delete e st d = st\<lparr>depStore := (depStore st)(d := set_delete e (depStore st d))\<rparr>"

text \<open>
  \<open>cleanup\<close>: delete the effect from every dep of \<open>effect.deps\<close>, then
  truncate that array.
\<close>

definition cleanup :: "eid \<Rightarrow> state \<Rightarrow> state" where
  "cleanup effect st =
     (let ds = deps (the_effect st effect) in
      if ds \<noteq> [] then set_deps effect [] (foldl (dep_delete effect) st ds)
      else st)"

text \<open>
  \<open>track\<close>, in three steps: look the key map of the target up or create
  it, look the dep of the key up or create it, add the effect on top of the
  stack to the dep and the dep to the effect (production build: no
  \<open>onTrack\<close>).
\<close>

definition getDepsMap :: "target \<Rightarrow> state \<Rightarrow> (key option \<times> dep_id) list \<times> state" where
  "getDepsMap t st =
     (case targetMap st t of
        None \<Rightarrow> ([], st\<lparr>targetMap := (targetMap st)(t \<mapsto> [])\<rparr>)
      | Some m \<Rightarrow> (m, st))"

definition getDep :: "target \<Rightarrow> key option \<Rightarrow> (key option \<times> dep_id) list \<Rightarrow> state \<Rightarrow> dep_id \<times> state" where
  "getDep t k depsMap st =
     (case map_of depsMap k of
        None \<Rightarrow>
          (let d = nextDep st in
           (d, st\<lparr>nextDep := Suc d,
                  depStore := (depStore st)(d := []),
                  targetMap := (targetMap st)(t \<mapsto> depsMap @ [(k, d)])\<rparr>))
      | Some d \<Rightarrow> (d, st))"

definition subscribe :: "eid \<Rightarrow> dep_id \<Rightarrow> state \<Rightarrow> state" where
  "subscribe e d st =
     (if e \<in> set (depStore st d) then st
      else set_deps e (deps (the_effect st e) @ [d])
             (st\<lparr>depStore := (depStore st)(d := set_add e (depStore st d))\<rparr>))"

definition track :: "target \<Rightarrow> OperationTypes \<Rightarrow> key option \<Rightarrow> state \<Rightarrow> state" where
  "track t type k st =
     (if \<not> shouldTrack st then st
      else if activeReactiveEffectStack st = [] then st
      else
        (let effect = last (activeReactiveEffectStack st);
             k' = (if type = ITERATE then Some ITERATE_KEY else k);
             (depsMap, st1) = getDepsMap t st;
             (dep, st2) = getDep t k' depsMap st1
         in subscribe effect dep st2))"

text \<open>
  \<open>run\<close>: a stopped effect calls the function directly; an effect already
  on the stack returns \<open>undefined\<close>; otherwise cleanup, push, call, and pop
  in the \<open>finally\<close> block whatever the outcome of the call.
\<close>

definition run :: "caller \<Rightarrow> eid \<Rightarrow> state \<Rightarrow> outcome \<times> state" where
  "run call effect st =
     (let fn = raw (the_effect st effect) in
      if \<not> active (the_effect st effect) then invoke call fn st
      else if effect \<notin> set (activeReactiveEffectStack st) then
        (let st1 = cleanup effect st;
             st2 = st1\<lparr>activeReactiveEffectStack := activeReactiveEffectStack st1 @ [effect]\<rparr>;
             (out, st3) = invoke call fn st2
         in (out, st3\<lparr>activeReactiveEffectStack := butlast (activeReactiveEffectStack st3)\<rparr>))
      else (Ret VUndefined, st))"

definition stop :: "caller \<Rightarrow> eid \<Rightarrow> state \<Rightarrow> outcome \<times> state" where
  "stop call effect st =
     (if active (the_effect st effect) then
        (let st1 = cleanup effect st in
         andThen (case onStop (the_effect st1 effect) of
                    Some f \<Rightarrow> invoke call f st1
                  | None \<Rightarrow> (Ret VUndefined, st1))
           (\<lambda>_ st2. (Ret VUndefined,
              st2\<lparr>effectTable := (effectTable st2)(effect := (effectTable st2 effect)\<lparr>active := False\<rparr>)\<rparr>)))
      else (Ret VUndefined, st))"

definition pauseTracking :: "state \<Rightarrow> state" where
  "pauseTracking st = st\<lparr>shouldTrack := False\<rparr>"

definition resumeTracking :: "state \<Rightarrow> state" where
  "resumeTracking st = st\<lparr>shouldTrack := True\<rparr>"

section \<open>effect.ts: trigger\<close>

text \<open>
  \<open>addRunners\<close> sorts the effects of one dep into the two local sets; the
  pair is (\<open>effects\<close>, \<open>computedRunners\<close>), in the order of the source's
  parameters.
\<close>

definition addRunner :: "state \<Rightarrow> eid list \<times> eid list \<Rightarrow> eid \<Rightarrow> eid list \<times> eid list" where
  "addRunner st acc effect =
     (case acc of (effects, computedRunners) \<Rightarrow>
        if computed (the_effect st effect) then (effects, set_add effect computedRunners)
        else (set_add effect effects, computedRunners))"

definition addRunners :: "state \<Rightarrow> eid list \<times> eid list \<Rightarrow> dep_id option \<Rightarrow> eid list \<times> eid list" where
  "addRunners st acc effectsToAdd =
     (case effectsToAdd of
        None \<Rightarrow> acc
      | Some dep \<Rightarrow> foldl (addRunner st) acc (depStore st dep))"

definition run_scheduler :: "caller \<Rightarrow> sched \<Rightarrow> state \<Rightarrow> outcome \<times> state" where
  "run_scheduler call s st =
     (case s of
        UserScheduler f \<Rightarrow> invoke call f st
      | ComputedScheduler c \<Rightarrow>
          (Ret VUndefined,
           st\<lparr>computedTable := (computedTable st)(c := (computedTable st c)\<lparr>dirty := True\<rparr>)\<rparr>))"

definition scheduleRun :: "caller \<Rightarrow> eid \<Rightarrow> state \<Rightarrow> outcome \<times> state" where
  "scheduleRun call effect st =
     (case scheduler (the_effect st effect) of
        Some s \<Rightarrow> run_scheduler call s st
      | None \<Rightarrow> run call effect st)"

text \<open>
  The collecting half of \<open>trigger\<close>: the two local sets after all
  \<open>addRunners\<close> calls, for a target that has a key map.
\<close>

definition collect ::
  "state \<Rightarrow> (key option \<times> dep_id) list \<Rightarrow> target \<Rightarrow> OperationTypes \<Rightarrow> key option \<Rightarrow> eid list \<times> eid list" where
  "collect st depsMap t type k =
     (if type = CLEAR then
        foldl (\<lambda>acc kd. addRunners st acc (Some (snd kd))) ([], []) depsMap
      else
        (let acc1 = (if k \<noteq> None then addRunners st ([], []) (map_of depsMap k) else ([], []));
             acc2 = (if type = ADD \<or> type = DELETE then
                       (let iterationKey = (if isArray (heap st t) then KStr ''length'' else ITERATE_KEY)
                        in addRunners st acc1 (map_of depsMap (Some iterationKey)))
                     else acc1)
         in acc2))"

definition trigger :: "caller \<Rightarrow> target \<Rightarrow> OperationTypes \<Rightarrow> key option \<Rightarrow> state \<Rightarrow> outcome \<times> state" where
  "trigger call t type k st =
     (case targetMap st t of
        None \<Rightarrow> (Ret VUndefined, st)
      | Some depsMap \<Rightarrow>
          (case collect st depsMap t type k of (effects, computedRunners) \<Rightarrow>
             andThen (forEach (scheduleRun call) computedRunners st)
               (\<lambda>_ st1. forEach (scheduleRun call) effects st1)))"

text \<open>
  \<open>effect\<close> and \<open>createReactiveEffect\<close>.  The options that matter in a
  production build; \<open>isEffect(fn)\<close> holds of an effect handle, whose raw
  function is then taken.
\<close>

record ReactiveEffectOptions =
  lazy :: bool
  o_computed :: bool
  o_scheduler :: "sched option"
  o_onStop :: "fn_id option"

definition createReactiveEffect :: "fn_id \<Rightarrow> ReactiveEffectOptions \<Rightarrow> state \<Rightarrow> eid \<times> state" where
  "createReactiveEffect fn options st =
     (let e = nextEffect st in
      (e, st\<lparr>nextEffect := Suc e,
             effectTable := (effectTable st)(e :=
               \<lparr>active = True, raw = fn, deps = [], computed = o_computed options,
                scheduler = o_scheduler options, onStop = o_onStop options\<rparr>)\<rparr>))"

definition effect :: "caller \<Rightarrow> val \<Rightarrow> ReactiveEffectOptions \<Rightarrow> state \<Rightarrow> outcome \<times> state" where
  "effect call fn options st =
     (case (case fn of VEffect e0 \<Rightarrow> Some (raw (the_effect st e0)) | VFun f \<Rightarrow> Some f | _ \<Rightarrow> None) of
        None \<Rightarrow> (Thrown (VStr ''TypeError''), st)
      | Some f \<Rightarrow>
          (case createReactiveEffect f options st of (e, st1) \<Rightarrow>
             if \<not> lazy options then andThen (run call e st1) (\<lambda>_ st2. (Ret (VEffect e), st2))
             else (Ret (VEffect e), st1)))"

section \<open>computed.ts (the closure-based version)\<close>

text \<open>
  \<open>trackChildRun\<close>: the effect on top of the stack joins every dep of the
  child runner.  The loop only ever appends to \<open>parentRunner.deps\<close>, and
  only deps that now contain the parent, so running over the deps the child
  has at entry visits the same deps with the same effect.
\<close>

definition trackChildRun :: "eid \<Rightarrow> state \<Rightarrow> state" where
  "trackChildRun childRunner st =
     (if activeReactiveEffectStack st = [] then st
      else
        (let parentRunner = last (activeReactiveEffectStack st)
         in foldl (\<lambda>s dep. subscribe parentRunner dep s) st (deps (the_effect st childRunner))))"

definition set_cell :: "cid \<Rightarrow> (computed_cell \<Rightarrow> computed_cell) \<Rightarrow> state \<Rightarrow> state" where
  "set_cell c f st = st\<lparr>computedTable := (computedTable st)(c := f (computedTable st c))\<rparr>"

text \<open>The accessor pair of the object that \<open>computed\<close> returns.\<close>

definition computed_get :: "caller \<Rightarrow> cid \<Rightarrow> state \<Rightarrow> outcome \<times> state" where
  "computed_get call c st =
     andThen
       (if dirty (computedTable st c) then
          andThen (run call (runner (computedTable st c)) st)
            (\<lambda>v st1. (Ret v, set_cell c (\<lambda>cell. cell\<lparr>cvalue := v, dirty := False\<rparr>) st1))
        else (Ret VUndefined, st))
       (\<lambda>_ st2.
          (let st3 = trackChildRun (runner (computedTable st2 c)) st2
           in (Ret (cvalue (computedTable st3 c)), st3)))"

definition computed_set :: "caller \<Rightarrow> cid \<Rightarrow> val \<Rightarrow> state \<Rightarrow> outcome \<times> state" where
  "computed_set call c newValue st =
     (case setter (computedTable st c) of
        Some f \<Rightarrow> invoke call f st
      | None \<Rightarrow> (Ret VUndefined, st))"

datatype getterOrOptions = Getter fn_id | GetSet fn_id fn_id

definition computed_make :: "caller \<Rightarrow> getterOrOptions \<Rightarrow> state \<Rightarrow> outcome \<times> state" where
  "computed_make call getterOrOptions st =
     (let isReadonly = (case getterOrOptions of Getter _ \<Rightarrow> True | GetSet _ _ \<Rightarrow> False);
          getter = (case getterOrOptions of Getter g \<Rightarrow> g | GetSet g _ \<Rightarrow> g);
          setter' = (case getterOrOptions of Getter _ \<Rightarrow> None | GetSet _ s \<Rightarrow> Some s);
          c = nextComputed st
      in andThen
           (effect call (VFun getter)
              \<lparr>lazy = True, o_computed = True,
               o_scheduler = Some (ComputedScheduler c), o_onStop = None\<rparr>
              (st\<lparr>nextComputed := Suc c\<rparr>))
           (\<lambda>r st1.
              (case r of
                 VEffect e \<Rightarrow>
                   (Ret (VComputed c),
                    st1\<lparr>computedTable := (computedTable st1)(c :=
                      \<lparr>dirty = True, cvalue = VUndefined, runner = e, setter = setter'\<rparr>)\<rparr>)
               | _ \<Rightarrow> (Ret VUndefined, st1))))"

section \<open>computed.ts (the class-based version, \<open>ComputedRefImpl\<close>)\<close>

text \<open>
  This version is written against a \<open>ReactiveEffect\<close> class and the
  functions \<open>trackRefValue\<close> and \<open>triggerRefValue\<close> of ref.ts.

  Modelled from the spec: \<open>trackRefValue\<close>, \<open>triggerRefValue\<close> and
  \<open>ReactiveEffect.run\<close> are missing.  Tracking subscribes the currently
  running reaction to the Derived Value, triggering notifies the Derived
  Value's own subscribers, and running the internal reaction evaluates the
  getter; each is recorded as an event, and the getter's result is a function
  of the object's state.
\<close>

datatype impl_event = TrackRefValue | TriggerRefValue | EffectRun

record 'v ComputedRefImpl =
  impl_dirty :: bool
  impl_value :: 'v
  impl_events :: "impl_event list"

definition impl_log :: "impl_event \<Rightarrow> 'v ComputedRefImpl \<Rightarrow> 'v ComputedRefImpl" where
  "impl_log ev self = self\<lparr>impl_events := impl_events self @ [ev]\<rparr>"

text \<open>The scheduler passed to \<open>new ReactiveEffect\<close> in the constructor.\<close>

definition impl_scheduler :: "'v ComputedRefImpl \<Rightarrow> 'v ComputedRefImpl" where
  "impl_scheduler self =
     (if \<not> impl_dirty self then impl_log TriggerRefValue (self\<lparr>impl_dirty := True\<rparr>)
      else self)"

text \<open>
  \<open>get value()\<close>; \<open>getter self\<close> is what \<open>self.effect.run()\<close> gives:
  \<open>Inl\<close> a thrown error, \<open>Inr\<close> the getter's result.
\<close>

definition impl_get_value ::
  "('v ComputedRefImpl \<Rightarrow> 'e + 'v) \<Rightarrow> 'v ComputedRefImpl \<Rightarrow> ('e + 'v) \<times> 'v ComputedRefImpl" where
  "impl_get_value getter this =
     (let self = impl_log TrackRefValue this in
      if impl_dirty self then
        (let self1 = impl_log EffectRun (self\<lparr>impl_dirty := False\<rparr>) in
         case getter self1 of
           Inl err \<Rightarrow> (Inl err, self1)
         | Inr v \<Rightarrow> (Inr v, self1\<lparr>impl_value := v\<rparr>))
      else (Inr (impl_value self), self))"

section \<open>baseHandlers.ts\<close>

text \<open>
  The JavaScript built-ins the handlers use, for ordinary objects with own
  data properties: \<open>Reflect.get\<close> and \<open>target[key]\<close> read the own
  property or give \<open>undefined\<close>; \<open>Reflect.set\<close> defines the property on
  the receiver, that is on the raw object behind it, since the proxies have
  no \<open>defineProperty\<close> trap; \<open>Reflect.deleteProperty\<close> removes it.  The
  prototype chain enters only as the \<open>receiver\<close> argument of a trap.
\<close>

definition prop_get :: "state \<Rightarrow> target \<Rightarrow> key \<Rightarrow> val" where
  "prop_get st t k = (case map_of (props (heap st t)) k of None \<Rightarrow> VUndefined | Some v \<Rightarrow> v)"

definition hasOwn :: "state \<Rightarrow> target \<Rightarrow> key \<Rightarrow> bool" where
  "hasOwn st t k = (map_of (props (heap st t)) k \<noteq> None)"

fun put_prop :: "key \<Rightarrow> val \<Rightarrow> (key \<times> val) list \<Rightarrow> (key \<times> val) list" where
  "put_prop k v [] = [(k, v)]"
| "put_prop k v (p # ps) = (if fst p = k then (k, v) # ps else p # put_prop k v ps)"

definition set_props :: "target \<Rightarrow> (key \<times> val) list \<Rightarrow> state \<Rightarrow> state" where
  "set_props t ps st = st\<lparr>heap := (heap st)(t := (heap st t)\<lparr>props := ps\<rparr>)\<rparr>"

definition isSymbol :: "key \<Rightarrow> bool" where
  "isSymbol k = (case k of KSym _ \<Rightarrow> True | KStr _ \<Rightarrow> False)"

definition builtInSymbols_has :: "key \<Rightarrow> bool" where
  "builtInSymbols_has k = (case k of KSym (WellKnown _) \<Rightarrow> True | _ \<Rightarrow> False)"

definition isObject :: "val \<Rightarrow> bool" where
  "isObject v =
     (case v of VObj _ \<Rightarrow> True | VProxy _ _ \<Rightarrow> True | VRef _ \<Rightarrow> True | VComputed _ \<Rightarrow> True
      | _ \<Rightarrow> False)"

text \<open>
  Modelled from the spec: reactive.ts and ref.ts are missing.  Unwrapping
  recovers the raw object of a wrapper and leaves every other value alone;
  wrapping is idempotent, keyed by object identity, skipped for an object
  excluded from reactivity, and the read-only wrap of a wrapper is the
  read-only wrapper; a ref is recognised by its marker, which the object
  returned by \<open>computed\<close> carries too; reading a ref tracks it and writing
  it stores the value and notifies its subscribers, under the empty string as
  key.
\<close>

definition toRaw :: "val \<Rightarrow> val" where
  "toRaw v = (case v of VProxy a _ \<Rightarrow> VObj a | _ \<Rightarrow> v)"

definition reactive :: "state \<Rightarrow> val \<Rightarrow> val" where
  "reactive st v =
     (case v of VObj a \<Rightarrow> if nonReactive (heap st a) then v else VProxy a False | _ \<Rightarrow> v)"

definition readonly :: "state \<Rightarrow> val \<Rightarrow> val" where
  "readonly st v =
     (case v of
        VObj a \<Rightarrow> if nonReactive (heap st a) then v else VProxy a True
      | VProxy a _ \<Rightarrow> VProxy a True
      | _ \<Rightarrow> v)"

definition isRef :: "val \<Rightarrow> bool" where
  "isRef v = (case v of VRef _ \<Rightarrow> True | VComputed _ \<Rightarrow> True | _ \<Rightarrow> False)"

type_synonym triggerer = "target \<Rightarrow> OperationTypes \<Rightarrow> key option \<Rightarrow> state \<Rightarrow> outcome \<times> state"

definition ref_get_value :: "caller \<Rightarrow> val \<Rightarrow> state \<Rightarrow> outcome \<times> state" where
  "ref_get_value call r st =
     (case r of
        VRef a \<Rightarrow> (Ret (refStore st a), track a GET (Some (KStr [])) st)
      | VComputed c \<Rightarrow> computed_get call c st
      | _ \<Rightarrow> (Ret VUndefined, st))"

definition ref_set_value :: "caller \<Rightarrow> triggerer \<Rightarrow> val \<Rightarrow> val \<Rightarrow> state \<Rightarrow> outcome \<times> state" where
  "ref_set_value call trig r newVal st =
     (case r of
        VRef a \<Rightarrow> trig a SET (Some (KStr [])) (st\<lparr>refStore := (refStore st)(a := reactive st newVal)\<rparr>)
      | VComputed c \<Rightarrow> computed_set call c newVal st
      | _ \<Rightarrow> (Ret VUndefined, st))"

definition Reflect_get :: "state \<Rightarrow> target \<Rightarrow> key \<Rightarrow> val \<Rightarrow> val" where
  "Reflect_get st t k receiver = prop_get st t k"

definition Reflect_set :: "target \<Rightarrow> key \<Rightarrow> val \<Rightarrow> val \<Rightarrow> state \<Rightarrow> bool \<times> state" where
  "Reflect_set t k v receiver st =
     (case toRaw receiver of
        VObj r \<Rightarrow> (True, set_props r (put_prop k v (props (heap st r))) st)
      | _ \<Rightarrow> (False, st))"

definition Reflect_deleteProperty :: "target \<Rightarrow> key \<Rightarrow> state \<Rightarrow> bool \<times> state" where
  "Reflect_deleteProperty t k st =
     (True, set_props t (filter (\<lambda>p. fst p \<noteq> k) (props (heap st t))) st)"

definition Reflect_ownKeys :: "state \<Rightarrow> target \<Rightarrow> key list" where
  "Reflect_ownKeys st t = map fst (props (heap st t))"

text \<open>The \<open>get\<close> trap made by \<open>createGetter(isReadonly)\<close>.\<close>

definition get_trap :: "caller \<Rightarrow> bool \<Rightarrow> target \<Rightarrow> key \<Rightarrow> val \<Rightarrow> state \<Rightarrow> outcome \<times> state" where
  "get_trap call isReadonly t k receiver st =
     (let res = Reflect_get st t k receiver in
      if isSymbol k \<and> builtInSymbols_has k then (Ret res, st)
      else if isRef res then ref_get_value call res st
      else
        (let st1 = track t GET (Some k) st
         in (Ret (if isObject res
                  then (if isReadonly then readonly st1 res else reactive st1 res)
                  else res), st1)))"

text \<open>
  The \<open>set\<close> trap (production branch).  The function that \<open>trigger\<close>
  names is a parameter, so that the trigger calls of the trap itself can be
  told from those that notified reactions make; \<open>set_trap\<close> is the trap
  with the real \<open>trigger\<close>.
\<close>

definition set_trap_with ::
  "caller \<Rightarrow> triggerer \<Rightarrow> target \<Rightarrow> key \<Rightarrow> val \<Rightarrow> val \<Rightarrow> state \<Rightarrow> outcome \<times> state" where
  "set_trap_with call trig t k value0 receiver st =
     (let value = toRaw value0;
          hadKey = hasOwn st t k;
          oldValue = prop_get st t k
      in if isRef oldValue \<and> \<not> isRef value then
           andThen (ref_set_value call trig oldValue value st) (\<lambda>_ st1. (Ret (VBool True), st1))
         else
           (case Reflect_set t k value receiver st of (result, st1) \<Rightarrow>
              andThen
                (if VObj t = toRaw receiver then
                   (if \<not> hadKey then trig t ADD (Some k) st1
                    else if value \<noteq> oldValue then trig t SET (Some k) st1
                    else (Ret VUndefined, st1))
                 else (Ret VUndefined, st1))
                (\<lambda>_ st2. (Ret (VBool result), st2))))"

definition set_trap :: "caller \<Rightarrow> target \<Rightarrow> key \<Rightarrow> val \<Rightarrow> val \<Rightarrow> state \<Rightarrow> outcome \<times> state" where
  "set_trap call = set_trap_with call (trigger call)"

definition deleteProperty_with ::
  "triggerer \<Rightarrow> target \<Rightarrow> key \<Rightarrow> state \<Rightarrow> outcome \<times> state" where
  "deleteProperty_with trig t k st =
     (let hadKey = hasOwn st t k in
      case Reflect_deleteProperty t k st of (result, st1) \<Rightarrow>
        andThen (if result \<and> hadKey then trig t DELETE (Some k) st1 else (Ret VUndefined, st1))
          (\<lambda>_ st2. (Ret (VBool result), st2)))"

definition deleteProperty :: "caller \<Rightarrow> target \<Rightarrow> key \<Rightarrow> state \<Rightarrow> outcome \<times> state" where
  "deleteProperty call = deleteProperty_with (trigger call)"

definition has_trap :: "target \<Rightarrow> key \<Rightarrow> state \<Rightarrow> bool \<times> state" where
  "has_trap t k st = (hasOwn st t k, track t HAS (Some k) st)"

definition ownKeys :: "target \<Rightarrow> state \<Rightarrow> key list \<times> state" where
  "ownKeys t st = (let st1 = track t ITERATE None st in (Reflect_ownKeys st1 t, st1))"

text \<open>The \<open>set\<close> and \<open>deleteProperty\<close> traps of \<open>readonlyHandlers\<close>.\<close>

definition readonly_set_trap :: "caller \<Rightarrow> target \<Rightarrow> key \<Rightarrow> val \<Rightarrow> val \<Rightarrow> state \<Rightarrow> outcome \<times> state" where
  "readonly_set_trap call t k v receiver st =
     (if LOCKED st then (Ret (VBool True), st) else set_trap call t k v receiver st)"

definition readonly_deleteProperty :: "caller \<Rightarrow> target \<Rightarrow> key \<Rightarrow> state \<Rightarrow> outcome \<times> state" where
  "readonly_deleteProperty call t k st =
     (if LOCKED st then (Ret (VBool True), st) else deleteProperty call t k st)"

text \<open>
  A trigger function that only writes the event down; with it in place of
  \<open>trigger\<close>, \<open>fired\<close> lists the trigger calls a trap makes.
\<close>

definition record_trigger :: triggerer where
  "record_trigger t type k st = (Ret VUndefined, st\<lparr>fired := fired st @ [(t, type, k)]\<rparr>)"

section \<open>User code\<close>

text \<open>
  A user function is a tree of engine calls: each node is one operation on
  the public surface, and its continuation receives what the operation
  returned.  \<open>Get ro t k\<close> reads the property through the wrapper of \<open>t\<close>
  (the read-only one when \<open>ro\<close>), \<open>Put\<close> writes through it, \<open>RawGet\<close>
  and \<open>RawPut\<close> use the raw object.  A read through a wrapper is written
  to \<open>readLog\<close> before the trap runs: the key for \<open>Get\<close> and \<open>Has\<close>,
  the iteration key for \<open>OwnKeys\<close>.
\<close>

datatype prog =
    Return val
  | Throw val
  | Get bool target key "val \<Rightarrow> prog"
  | Put bool target key val prog
  | Delete bool target key prog
  | Has target key "bool \<Rightarrow> prog"
  | OwnKeys target "key list \<Rightarrow> prog"
  | RawGet target key "val \<Rightarrow> prog"
  | RawPut target key val prog
  | CallEffect eid "val \<Rightarrow> prog"
  | CallFn fn_id "val \<Rightarrow> prog"
  | NewEffect val ReactiveEffectOptions "val \<Rightarrow> prog"
  | Stop eid prog
  | NewComputed getterOrOptions "val \<Rightarrow> prog"
  | ComputedGet cid "val \<Rightarrow> prog"
  | ComputedSet cid val prog
  | PauseTracking prog
  | ResumeTracking prog

definition note_read :: "target \<Rightarrow> key option \<Rightarrow> state \<Rightarrow> state" where
  "note_read t k st = st\<lparr>readLog := readLog st @ [(activeReactiveEffectStack st, t, k)]\<rparr>"

primrec exec :: "caller \<Rightarrow> prog \<Rightarrow> state \<Rightarrow> outcome \<times> state" where
  "exec call (Return v) = (\<lambda>st. (Ret v, st))"
| "exec call (Throw v) = (\<lambda>st. (Thrown v, st))"
| "exec call (Get ro t k cont) =
     (\<lambda>st. andThen (get_trap call ro t k (VProxy t ro) (note_read t (Some k) st))
            (\<lambda>v. exec call (cont v)))"
| "exec call (Put ro t k v rest) =
     (\<lambda>st. andThen
        (if ro then readonly_set_trap call t k v (VProxy t ro) st
         else set_trap call t k v (VProxy t ro) st)
        (\<lambda>_. exec call rest))"
| "exec call (Delete ro t k rest) =
     (\<lambda>st. andThen
        (if ro then readonly_deleteProperty call t k st else deleteProperty call t k st)
        (\<lambda>_. exec call rest))"
| "exec call (Has t k cont) =
     (\<lambda>st. case has_trap t k (note_read t (Some k) st) of (b, st1) \<Rightarrow> exec call (cont b) st1)"
| "exec call (OwnKeys t cont) =
     (\<lambda>st. case ownKeys t (note_read t (Some ITERATE_KEY) st) of
             (ks, st1) \<Rightarrow> exec call (cont ks) st1)"
| "exec call (RawGet t k cont) = (\<lambda>st. exec call (cont (prop_get st t k)) st)"
| "exec call (RawPut t k v rest) =
     (\<lambda>st. exec call rest (set_props t (put_prop k v (props (heap st t))) st))"
| "exec call (CallEffect e cont) =
     (\<lambda>st. andThen (run call e st) (\<lambda>v. exec call (cont v)))"
| "exec call (CallFn f cont) =
     (\<lambda>st. andThen (invoke call f st) (\<lambda>v. exec call (cont v)))"
| "exec call (NewEffect fn options cont) =
     (\<lambda>st. andThen (effect call fn options st) (\<lambda>v. exec call (cont v)))"
| "exec call (Stop e rest) =
     (\<lambda>st. andThen (stop call e st) (\<lambda>_. exec call rest))"
| "exec call (NewComputed g cont) =
     (\<lambda>st. andThen (computed_make call g st) (\<lambda>v. exec call (cont v)))"
| "exec call (ComputedGet c cont) =
     (\<lambda>st. andThen (computed_get call c st) (\<lambda>v. exec call (cont v)))"
| "exec call (ComputedSet c v rest) =
     (\<lambda>st. andThen (computed_set call c v st) (\<lambda>_. exec call rest))"
| "exec call (PauseTracking rest) = (\<lambda>st. exec call rest (pauseTracking st))"
| "exec call (ResumeTracking rest) = (\<lambda>st. exec call rest (resumeTracking st))"

text \<open>
  Calling the user function \<open>f\<close> of the program \<open>P\<close> with fuel \<open>n\<close>:
  every nested call of a user function costs one unit, and a call with no
  fuel left gives \<open>OutOfFuel\<close>.
\<close>

primrec sem :: "(fn_id \<Rightarrow> prog) \<Rightarrow> nat \<Rightarrow> caller" where
  "sem P 0 = (\<lambda>f st. (OutOfFuel, st))"
| "sem P (Suc n) = (\<lambda>f st. exec (sem P n) (P f) st)"

text \<open>The state of a freshly loaded module: nothing tracked, nothing running.\<close>

definition empty_obj :: obj where
  "empty_obj = \<lparr>props = [], isArray = False, nonReactive = False\<rparr>"

definition init :: state where
  "init =
     \<lparr>targetMap = (\<lambda>_. None), depStore = (\<lambda>_. []), nextDep = 0,
      effectTable = (\<lambda>_. \<lparr>active = False, raw = 0, deps = [], computed = False,
                           scheduler = None, onStop = None\<rparr>),
      nextEffect = 0, activeReactiveEffectStack = [], shouldTrack = True,
      heap = (\<lambda>_. empty_obj), refStore = (\<lambda>_. VUndefined),
      computedTable = (\<lambda>_. \<lparr>dirty = True, cvalue = VUndefined, runner = 0, setter = None\<rparr>),
      nextComputed = 0, LOCKED = True, calls = [], fired = [], readLog = []\<rparr>"

section \<open>Notions used in the statements\<close>

text \<open>
  The reactions one \<open>trigger\<close> call schedules, in the order in which it
  schedules them: the computed runners, then the other effects.
\<close>

definition notified :: "state \<Rightarrow> target \<Rightarrow> OperationTypes \<Rightarrow> key option \<Rightarrow> eid list" where
  "notified st t type k =
     (case targetMap st t of
        None \<Rightarrow> []
      | Some depsMap \<Rightarrow>
          (case collect st depsMap t type k of (effects, computedRunners) \<Rightarrow>
             computedRunners @ effects))"

text \<open>The members of the dep that a key map holds for a key, if any.\<close>

definition dep_members :: "state \<Rightarrow> (key option \<times> dep_id) list \<Rightarrow> key option \<Rightarrow> eid set" where
  "dep_members st depsMap k =
     (case map_of depsMap k of None \<Rightarrow> {} | Some d \<Rightarrow> set (depStore st d))"

definition iterationKey :: "state \<Rightarrow> target \<Rightarrow> key" where
  "iterationKey st t = (if isArray (heap st t) then KStr ''length'' else ITERATE_KEY)"

text \<open>The two local sets of \<open>trigger\<close> are duplicate-free and sorted by the flag.\<close>

definition sorted_pair :: "state \<Rightarrow> eid list \<times> eid list \<Rightarrow> bool" where
  "sorted_pair st acc =
     (case acc of (effects, computedRunners) \<Rightarrow>
        distinct effects \<and> distinct computedRunners
        \<and> list_all (\<lambda>e. \<not> computed (the_effect st e)) effects
        \<and> list_all (\<lambda>e. computed (the_effect st e)) computedRunners)"

text \<open>
  A small program for the examples.  The object at address 0 is
  \<open>{a: 1}\<close>; function 1 reads \<open>a\<close> and enumerates the keys, function 2
  reads \<open>a\<close>; function 0 makes a reaction of function 1, a computed ref of
  function 2, and reads the computed ref once.  \<open>demo\<close> is the state this
  leaves: reaction 0 is the plain one, reaction 1 the runner of the computed
  ref.
\<close>

definition plain_options :: ReactiveEffectOptions where
  "plain_options = \<lparr>lazy = False, o_computed = False, o_scheduler = None, o_onStop = None\<rparr>"

definition demo_prog :: "fn_id \<Rightarrow> prog" where
  "demo_prog f =
     (if f = 0 then
        NewEffect (VFun 1) plain_options
          (\<lambda>_. NewComputed (Getter 2) (\<lambda>_. ComputedGet 0 (\<lambda>v. Return v)))
      else if f = 1 then Get False 0 (KStr ''a'') (\<lambda>_. OwnKeys 0 (\<lambda>_. Return VUndefined))
      else Get False 0 (KStr ''a'') (\<lambda>v. Return v))"

definition demo_heap :: state where
  "demo_heap = init\<lparr>heap := (heap init)(0 := empty_obj\<lparr>props := [(KStr ''a'', VNum 1)]\<rparr>)\<rparr>"

definition demo :: state where
  "demo = snd (sem demo_prog 3 0 demo_heap)"

text \<open>A caller for the examples in which no user function does anything.\<close>

definition idle :: caller where
  "idle f st = (Ret VUndefined, st)"

text \<open>The object at address 0 is \<open>{a: o}\<close>, \<open>o\<close> the raw object at address 1.\<close>

definition nested_heap :: state where
  "nested_heap = init\<lparr>heap := (heap init)(0 := empty_obj\<lparr>props := [(KStr ''a'', VObj 1)]\<rparr>)\<rparr>"

text \<open>
  The state in which \<open>run\<close> calls the function of an effect that is not
  already on the stack: after \<open>cleanup\<close> and the push when the effect is
  active, the state as it is when the effect is stopped; in both cases with
  the call written down.
\<close>

definition body_entry :: "eid \<Rightarrow> state \<Rightarrow> state" where
  "body_entry e st =
     (let st2 = (if active (the_effect st e)
                 then (let st1 = cleanup e st
                       in st1\<lparr>activeReactiveEffectStack := activeReactiveEffectStack st1 @ [e]\<rparr>)
                 else st)
      in st2\<lparr>calls := calls st2 @ [raw (the_effect st e)]\<rparr>)"

text \<open>The function a computed ref evaluates: the raw function of its runner.\<close>

definition getter_of :: "state \<Rightarrow> cid \<Rightarrow> fn_id" where
  "getter_of st c = raw (the_effect st (runner (computedTable st c)))"

text \<open>How often \<open>self.effect.run()\<close> has been called on a \<open>ComputedRefImpl\<close>.\<close>

definition impl_runs :: "'v ComputedRefImpl \<Rightarrow> nat" where
  "impl_runs self = count_list (impl_events self) EffectRun"

text \<open>
  The state \<open>demo\<close> after the write \<open>proxy.a = 2\<close>, made outside any
  reaction.
\<close>

definition demo_written :: state where
  "demo_written = snd (set_trap (sem demo_prog 2) 0 (KStr ''a'') (VNum 2) (VProxy 0 False) demo)"

text \<open>A caller leaves the stack as it found it.\<close>

definition preserves_stack :: "caller \<Rightarrow> bool" where
  "preserves_stack call =
     (\<forall>f st. activeReactiveEffectStack (snd (call f st)) = activeReactiveEffectStack st)"

text \<open>No reaction but \<open>e\<close> is a member of any dep of the target \<open>t\<close>.\<close>

definition only_subscriber :: "eid \<Rightarrow> target \<Rightarrow> state \<Rightarrow> bool" where
  "only_subscriber e t st =
     (case targetMap st t of
        None \<Rightarrow> True
      | Some m \<Rightarrow> list_all (\<lambda>kd. set (depStore st (snd kd)) \<subseteq> {e}) m)"

text \<open>
  The body \<open>proxy.k = g(proxy.k)\<close>, which returns the value it read;
  \<open>state.n++\<close> is \<open>incr_body t (KStr ''n'') plus_one\<close>.
\<close>

definition incr_body :: "target \<Rightarrow> key \<Rightarrow> (val \<Rightarrow> val) \<Rightarrow> prog" where
  "incr_body t k g = Get False t k (\<lambda>v. Put False t k (g v) (Return v))"

definition plus_one :: "val \<Rightarrow> val" where
  "plus_one v = (case v of VNum n \<Rightarrow> VNum (n + 1) | _ \<Rightarrow> VUndefined)"

text \<open>
  The object at address 0 is \<open>{n: 0}\<close> and function 1 is
  \<open>() => counter.n++\<close>; \<open>counter_made\<close> is the state after
  \<open>effect(fn, {lazy: true})\<close>.
\<close>

definition lazy_options :: ReactiveEffectOptions where
  "lazy_options = \<lparr>lazy = True, o_computed = False, o_scheduler = None, o_onStop = None\<rparr>"

definition counter_prog :: "fn_id \<Rightarrow> prog" where
  "counter_prog f = incr_body 0 (KStr ''n'') plus_one"

definition counter_made :: state where
  "counter_made =
     snd (effect idle (VFun 1) lazy_options
            (init\<lparr>heap := (heap init)(0 := empty_obj\<lparr>props := [(KStr ''n'', VNum 0)]\<rparr>)\<rparr>))"

text \<open>
  A reaction that stops itself.  Function 1 looks at a flag on the raw object
  at address 9; the first time it sets the flag, stops reaction 0 and calls
  the handle of reaction 0; function 0 makes reaction 0 of function 1,
  lazily, and calls its handle.  \<open>stopped_inside\<close> is the state inside the
  body of reaction 0 right after \<open>stop\<close>.
\<close>

definition self_stop_prog :: "fn_id \<Rightarrow> prog" where
  "self_stop_prog f =
     (if f = 0 then NewEffect (VFun 1) lazy_options (\<lambda>_. CallEffect 0 (\<lambda>v. Return v))
      else RawGet 9 (KStr ''seen'')
             (\<lambda>v. if v = VUndefined
                   then RawPut 9 (KStr ''seen'') (VBool True)
                          (Stop 0 (CallEffect 0 (\<lambda>_. Return VUndefined)))
                   else Return v))"

definition stopped_inside :: state where
  "stopped_inside = snd (stop idle 0 (body_entry 0 (snd (effect idle (VFun 1) lazy_options init))))"

text \<open>
  A reaction that stops itself and then reads.  Function 1 stops reaction 0
  and reads \<open>a\<close> of the object at address 0; function 0 makes reaction 0
  of function 1, lazily, calls its handle and then writes \<open>a\<close>.
\<close>

definition stop_read_prog :: "fn_id \<Rightarrow> prog" where
  "stop_read_prog f =
     (if f = 0 then
        NewEffect (VFun 1) lazy_options
          (\<lambda>_. CallEffect 0 (\<lambda>_. Put False 0 (KStr ''a'') (VNum 2) (Return VUndefined)))
      else Stop 0 (Get False 0 (KStr ''a'') (\<lambda>v. Return v)))"

text \<open>
  A reaction that throws.  Function 1 reads \<open>a\<close> of the object at address
  0 and throws; \<open>thrower_made\<close> is the state after
  \<open>effect(fn, {lazy: true})\<close>.
\<close>

definition throw_prog :: "fn_id \<Rightarrow> prog" where
  "throw_prog f = Get False 0 (KStr ''a'') (\<lambda>_. Throw (VStr ''boom''))"

definition thrower_made :: state where
  "thrower_made = snd (effect idle (VFun 1) lazy_options demo_heap)"

text \<open>
  The Dependency Set of a location: the dep that the key map of the target
  holds for the key, and its members.
\<close>

definition dep_at :: "state \<Rightarrow> target \<Rightarrow> key option \<Rightarrow> dep_id option" where
  "dep_at st t k = (case targetMap st t of None \<Rightarrow> None | Some m \<Rightarrow> map_of m k)"

definition subscribers :: "state \<Rightarrow> target \<Rightarrow> key option \<Rightarrow> eid set" where
  "subscribers st t k = (case dep_at st t k of None \<Rightarrow> {} | Some d \<Rightarrow> set (depStore st d))"

text \<open>
  The store is well formed when every dep of a key map has been allocated
  and no dep serves two locations; an effect is linked when every dep that
  holds it is in its \<open>deps\<close> array.
\<close>

definition wf_store :: "state \<Rightarrow> bool" where
  "wf_store st =
     ((\<forall>t k d. dep_at st t k = Some d \<longrightarrow> d < nextDep st)
      \<and> (\<forall>t k t' k' d. dep_at st t k = Some d \<and> dep_at st t' k' = Some d \<longrightarrow> t = t' \<and> k = k'))"

definition linked :: "eid \<Rightarrow> state \<Rightarrow> bool" where
  "linked e st = (\<forall>d. e \<in> set (depStore st d) \<longrightarrow> d \<in> set (deps (the_effect st e)))"

text \<open>The key under which \<open>track\<close> files a read.\<close>

definition norm_key :: "OperationTypes \<Rightarrow> key option \<Rightarrow> key option" where
  "norm_key type k = (if type = ITERATE then Some ITERATE_KEY else k)"

text \<open>The locations of a list of \<open>readLog\<close> entries.\<close>

definition locations :: "(eid list \<times> target \<times> key option) list \<Rightarrow> (target \<times> key option) set" where
  "locations xs = snd ` set xs"

text \<open>
  What the \<open>get\<close> trap returns for a stored value that is not a ref, and
  the bodies that only read: along the path that the body takes in the
  given heap every node is a read through a wrapper, of a key that is not a
  well-known symbol and whose value is not a ref, or a read of a raw object,
  up to the final return or throw.
\<close>

definition wrapped :: "state \<Rightarrow> bool \<Rightarrow> val \<Rightarrow> val" where
  "wrapped st isReadonly res =
     (if isObject res then (if isReadonly then readonly st res else reactive st res) else res)"

primrec plain_reader :: "state \<Rightarrow> prog \<Rightarrow> bool" where
  "plain_reader st (Return v) = True"
| "plain_reader st (Throw v) = True"
| "plain_reader st (Get ro t k cont) =
     (\<not> (isSymbol k \<and> builtInSymbols_has k) \<and> \<not> isRef (prop_get st t k)
      \<and> plain_reader st (cont (wrapped st ro (prop_get st t k))))"
| "plain_reader st (Put ro t k v rest) = False"
| "plain_reader st (Delete ro t k rest) = False"
| "plain_reader st (Has t k cont) = plain_reader st (cont (hasOwn st t k))"
| "plain_reader st (OwnKeys t cont) = plain_reader st (cont (Reflect_ownKeys st t))"
| "plain_reader st (RawGet t k cont) = plain_reader st (cont (prop_get st t k))"
| "plain_reader st (RawPut t k v rest) = False"
| "plain_reader st (CallEffect e cont) = False"
| "plain_reader st (CallFn f cont) = False"
| "plain_reader st (NewEffect fn options cont) = False"
| "plain_reader st (Stop e rest) = False"
| "plain_reader st (NewComputed g cont) = False"
| "plain_reader st (ComputedGet c cont) = False"
| "plain_reader st (ComputedSet c v rest) = False"
| "plain_reader st (PauseTracking rest) = False"
| "plain_reader st (ResumeTracking rest) = False"

text \<open>
  A reaction that reads a cached computed ref.  Function 2 reads \<open>a\<close> of
  the object at address 0, function 3 reads the computed ref 0; function 0
  makes the computed ref 0 of function 2 (its runner is reaction 0), reads
  it, and then makes reaction 1 of function 3.
\<close>

definition cached_prog :: "fn_id \<Rightarrow> prog" where
  "cached_prog f =
     (if f = 0 then
        NewComputed (Getter 2)
          (\<lambda>_. ComputedGet 0 (\<lambda>_. NewEffect (VFun 3) plain_options (\<lambda>e. Return e)))
      else if f = 2 then Get False 0 (KStr ''a'') (\<lambda>v. Return v)
      else ComputedGet 0 (\<lambda>v. Return v))"

definition cached :: state where
  "cached = snd (sem cached_prog 3 0 demo_heap)"

text \<open>
  A reaction that reads twice.  Function 1 reads \<open>a\<close> of the object at
  address 0 and, when it is 1, whether the object has \<open>b\<close>;
  \<open>reader_made\<close> is the state after \<open>effect(fn, {lazy: true})\<close>.
\<close>

definition reader_prog :: "fn_id \<Rightarrow> prog" where
  "reader_prog f =
     Get False 0 (KStr ''a'')
       (\<lambda>v. if v = VNum 1 then Has 0 (KStr ''b'') (\<lambda>b. Return (VBool b)) else Return v)"

definition reader_made :: state where
  "reader_made = snd (effect idle (VFun 1) lazy_options demo_heap)"

text \<open>The dep that \<open>track\<close> uses for a location: the one there is, or a new one.\<close>

definition track_dep :: "target \<Rightarrow> key option \<Rightarrow> state \<Rightarrow> dep_id" where
  "track_dep t k st = (case dep_at st t k of Some d \<Rightarrow> d | None \<Rightarrow> nextDep st)"

text \<open>
  Five scenarios of effect.spec.ts, as programs: the observed object is at
  address 0, what the test keeps in local variables goes to the raw object at
  address 9, function 0 is the test itself.

  \<^item> \<open>nested_prog\<close>, "should allow nested effects": function 1 is
    \<open>childSpy\<close>, function 2 is \<open>parentSpy\<close>.
  \<^item> \<open>stop_prog\<close>, "stop": \<open>d1\<close>, \<open>d2\<close> and \<open>d3\<close> are \<open>dummy\<close>
    after the first write, after the write that follows \<open>stop\<close>, and after
    the manual call.
  \<^item> \<open>once_prog\<close>, "should not run multiple times for a single mutation".
  \<^item> \<open>sched_prog\<close>, "scheduler": function 2 is the scheduler.
  \<^item> \<open>loop_prog\<close>, "should avoid infinite loops with other effects".
\<close>

definition nested_prog :: "fn_id \<Rightarrow> prog" where
  "nested_prog f =
     (if f = 1 then
        Get False 0 (KStr ''num1'') (\<lambda>v. RawPut 9 (KStr ''num1'') v (Return VUndefined))
      else if f = 2 then
        Get False 0 (KStr ''num2'')
          (\<lambda>v. RawPut 9 (KStr ''num2'') v
             (CallEffect 0
                (\<lambda>_. Get False 0 (KStr ''num3'')
                   (\<lambda>w. RawPut 9 (KStr ''num3'') w (Return VUndefined)))))
      else
        NewEffect (VFun 1) plain_options
          (\<lambda>_. NewEffect (VFun 2) plain_options
             (\<lambda>_. Put False 0 (KStr ''num1'') (VNum 4)
                (Put False 0 (KStr ''num2'') (VNum 10)
                   (Put False 0 (KStr ''num3'') (VNum 7) (Return VUndefined))))))"

definition nested_init :: state where
  "nested_init =
     init\<lparr>heap := (heap init)(0 := empty_obj\<lparr>props :=
       [(KStr ''num1'', VNum 0), (KStr ''num2'', VNum 1), (KStr ''num3'', VNum 2)]\<rparr>)\<rparr>"

definition stop_prog :: "fn_id \<Rightarrow> prog" where
  "stop_prog f =
     (if f = 1 then
        Get False 0 (KStr ''prop'') (\<lambda>v. RawPut 9 (KStr ''dummy'') v (Return VUndefined))
      else
        NewEffect (VFun 1) plain_options
          (\<lambda>_. Put False 0 (KStr ''prop'') (VNum 2)
             (RawGet 9 (KStr ''dummy'')
                (\<lambda>d1. Stop 0
                   (Put False 0 (KStr ''prop'') (VNum 3)
                      (RawGet 9 (KStr ''dummy'')
                         (\<lambda>d2. CallEffect 0
                            (\<lambda>_. RawGet 9 (KStr ''dummy'')
                               (\<lambda>d3. RawPut 9 (KStr ''d1'') d1
                                  (RawPut 9 (KStr ''d2'') d2
                                     (RawPut 9 (KStr ''d3'') d3 (Return VUndefined))))))))))))"

definition stop_init :: state where
  "stop_init = init\<lparr>heap := (heap init)(0 := empty_obj\<lparr>props := [(KStr ''prop'', VNum 1)]\<rparr>)\<rparr>"

definition once_prog :: "fn_id \<Rightarrow> prog" where
  "once_prog f =
     (if f = 1 then
        OwnKeys 0
          (\<lambda>_. Get False 0 (KStr ''prop'')
             (\<lambda>v. RawPut 9 (KStr ''dummy'') v (Return VUndefined)))
      else
        NewEffect (VFun 1) plain_options
          (\<lambda>_. Put False 0 (KStr ''prop'') (VNum 16) (Return VUndefined)))"

definition sched_prog :: "fn_id \<Rightarrow> prog" where
  "sched_prog f =
     (if f = 1 then
        Get False 0 (KStr ''foo'') (\<lambda>v. RawPut 9 (KStr ''dummy'') v (Return VUndefined))
      else if f = 2 then Return VUndefined
      else
        NewEffect (VFun 1)
          \<lparr>lazy = False, o_computed = False, o_scheduler = Some (UserScheduler 2),
           o_onStop = None\<rparr>
          (\<lambda>_. Put False 0 (KStr ''foo'') (VNum 2)
             (RawGet 9 (KStr ''dummy'')
                (\<lambda>d1. CallEffect 0
                   (\<lambda>_. RawGet 9 (KStr ''dummy'')
                      (\<lambda>d2. RawPut 9 (KStr ''d1'') d1
                         (RawPut 9 (KStr ''d2'') d2 (Return VUndefined))))))))"

definition sched_init :: state where
  "sched_init = init\<lparr>heap := (heap init)(0 := empty_obj\<lparr>props := [(KStr ''foo'', VNum 1)]\<rparr>)\<rparr>"

definition loop_prog :: "fn_id \<Rightarrow> prog" where
  "loop_prog f =
     (if f = 1 then
        Get False 0 (KStr ''num2'') (\<lambda>v. Put False 0 (KStr ''num1'') v (Return VUndefined))
      else if f = 2 then
        Get False 0 (KStr ''num1'') (\<lambda>v. Put False 0 (KStr ''num2'') v (Return VUndefined))
      else
        NewEffect (VFun 1) plain_options
          (\<lambda>_. NewEffect (VFun 2) plain_options
             (\<lambda>_. Put False 0 (KStr ''num2'') (VNum 4)
                (Put False 0 (KStr ''num1'') (VNum 10) (Return VUndefined)))))"

definition loop_init :: state where
  "loop_init =
     init\<lparr>heap := (heap init)(0 := empty_obj\<lparr>props :=
       [(KStr ''num1'', VNum 0), (KStr ''num2'', VNum 1)]\<rparr>)\<rparr>"

text \<open>
  The invariant of the dependency graph: the store is well formed, every
  effect is linked, the members of the deps and the effects on the stack
  have been created, and an effect that has not been created is not active.
  \<open>graph_of\<close> is the part of the state the invariant speaks of.
\<close>

definition graph_ok :: "state \<Rightarrow> bool" where
  "graph_ok st =
     (wf_store st \<and> (\<forall>e. linked e st)
      \<and> (\<forall>d x. x \<in> set (depStore st d) \<longrightarrow> x < nextEffect st)
      \<and> (\<forall>x. x \<in> set (activeReactiveEffectStack st) \<longrightarrow> x < nextEffect st)
      \<and> (\<forall>e. nextEffect st \<le> e \<longrightarrow> \<not> active (the_effect st e)))"

definition graph_of ::
  "state \<Rightarrow> (target \<Rightarrow> (key option \<times> dep_id) list option) \<times> (dep_id \<Rightarrow> eid list) \<times> dep_id
     \<times> (eid \<Rightarrow> ReactiveEffect) \<times> eid \<times> eid list" where
  "graph_of st =
     (targetMap st, depStore st, nextDep st, effectTable st, nextEffect st,
      activeReactiveEffectStack st)"

definition keeps_graph_ok :: "caller \<Rightarrow> bool" where
  "keeps_graph_ok call = (\<forall>f st. graph_ok st \<longrightarrow> graph_ok (snd (call f st)))"

text \<open>
  A reaction is retired when it has been created, is stopped, is not running
  and is a member of no dep.
\<close>

definition retired :: "eid \<Rightarrow> state \<Rightarrow> bool" where
  "retired e st =
     (e < nextEffect st \<and> \<not> active (the_effect st e)
      \<and> e \<notin> set (activeReactiveEffectStack st)
      \<and> (\<forall>d. e \<notin> set (depStore st d)))"

definition keeps_retired :: "eid \<Rightarrow> caller \<Rightarrow> bool" where
  "keeps_retired e call = (\<forall>f st. retired e st \<longrightarrow> retired e (snd (call f st)))"

section \<open>Properties of trigger\<close>

lemma set_set_add: "set (set_add x xs) = insert x (set xs)"
  by (auto simp: set_add_def)

lemma sorted_pair_addRunner: "sorted_pair st acc \<Longrightarrow> sorted_pair st (addRunner st acc e)"
  by (cases acc) (auto simp: sorted_pair_def addRunner_def set_add_def list_all_iff)

lemma sorted_pair_foldl: "sorted_pair st acc \<Longrightarrow> sorted_pair st (foldl (addRunner st) acc es)"
  by (induction es arbitrary: acc) (simp_all add: sorted_pair_addRunner)

lemma sorted_pair_addRunners: "sorted_pair st acc \<Longrightarrow> sorted_pair st (addRunners st acc d)"
  by (cases d) (simp_all add: addRunners_def sorted_pair_foldl)

lemma sorted_pair_clear:
  "sorted_pair st acc \<Longrightarrow>
   sorted_pair st (foldl (\<lambda>acc kd. addRunners st acc (Some (snd kd))) acc m)"
  by (induction m arbitrary: acc) (simp_all add: sorted_pair_addRunners)

lemma sorted_pair_empty: "sorted_pair st ([], [])"
  by (simp add: sorted_pair_def)

lemma sorted_pair_collect: "sorted_pair st (collect st m t type k)"
  by (simp add: collect_def Let_def sorted_pair_clear sorted_pair_addRunners sorted_pair_empty)

lemma forEach_append:
  "forEach f (xs @ ys) st = andThen (forEach f xs st) (\<lambda>_ st1. forEach f ys st1)"
  by (induction xs arbitrary: st) (auto simp: andThen_def split: prod.splits outcome.splits)

lemma trigger_forEach:
  "trigger call t type k st = forEach (scheduleRun call) (notified st t type k) st"
  by (simp add: trigger_def notified_def forEach_append split: option.splits prod.splits)

lemma notified_distinct: "distinct (notified st t type k)"
proof (cases "targetMap st t")
  case None
  then show ?thesis by (simp add: notified_def)
next
  case (Some m)
  obtain es cs where c: "collect st m t type k = (es, cs)"
    by (cases "collect st m t type k")
  have "sorted_pair st (es, cs)"
    using sorted_pair_collect [of st m t type k] c by simp
  then show ?thesis
    using Some c by (auto simp: notified_def sorted_pair_def list_all_iff)
qed

lemma notified_order:
  assumes "i < length (notified st t type k)" and "j < length (notified st t type k)"
    and "computed (the_effect st (notified st t type k ! i))"
    and "\<not> computed (the_effect st (notified st t type k ! j))"
  shows "i < j"
proof (cases "targetMap st t")
  case None
  then show ?thesis using assms by (simp add: notified_def)
next
  case (Some m)
  obtain es cs where c: "collect st m t type k = (es, cs)"
    by (cases "collect st m t type k")
  have sp: "sorted_pair st (es, cs)"
    using sorted_pair_collect [of st m t type k] c by simp
  have n: "notified st t type k = cs @ es"
    using Some c by (simp add: notified_def)
  have i: "i < length cs"
  proof (rule ccontr)
    assume "\<not> i < length cs"
    then have "(cs @ es) ! i = es ! (i - length cs)" and "i - length cs < length es"
      using assms(1) n by (auto simp: nth_append)
    then have "\<not> computed (the_effect st ((cs @ es) ! i))"
      using sp by (auto simp: sorted_pair_def list_all_length)
    then show False using assms(3) n by simp
  qed
  have j: "\<not> j < length cs"
  proof
    assume "j < length cs"
    then have "computed (the_effect st ((cs @ es) ! j))"
      using sp by (auto simp: sorted_pair_def list_all_length nth_append)
    then show False using assms(4) n by simp
  qed
  show ?thesis using i j by simp
qed

text \<open>
  C1.  One call of \<open>trigger\<close> schedules the reactions of
  \<open>notified\<close>, one after the other and in that order; in that list no
  reaction occurs twice, however many of the selected deps hold it, and every
  reaction flagged \<open>computed\<close> stands before every reaction that is not.
\<close>

theorem trigger_computed_first_once:
  "trigger call t type k st = forEach (scheduleRun call) (notified st t type k) st
   \<and> distinct (notified st t type k)
   \<and> (\<forall>i j. i < length (notified st t type k) \<and> j < length (notified st t type k)
         \<and> computed (the_effect st (notified st t type k ! i))
         \<and> \<not> computed (the_effect st (notified st t type k ! j)) \<longrightarrow> i < j)"
  using trigger_forEach notified_distinct notified_order by blast

lemmas engine_defs =
  effect_def createReactiveEffect_def run_def the_effect_def invoke_def andThen_def cleanup_def
  get_trap_def Reflect_get_def prop_get_def isSymbol_def builtInSymbols_has_def isRef_def
  track_def getDepsMap_def getDep_def subscribe_def set_add_def set_deps_def isObject_def
  set_trap_def set_trap_with_def toRaw_def hasOwn_def Reflect_set_def set_props_def
  trigger_def collect_def addRunners_def addRunner_def scheduleRun_def run_scheduler_def
  ITERATE_KEY_def Let_def dep_delete_def set_delete_def stop_def computed_get_def
  computed_set_def computed_make_def trackChildRun_def set_cell_def ref_get_value_def
  ref_set_value_def reactive_def readonly_def deleteProperty_def deleteProperty_with_def
  Reflect_deleteProperty_def Reflect_ownKeys_def has_trap_def ownKeys_def
  readonly_set_trap_def readonly_deleteProperty_def pauseTracking_def resumeTracking_def
  init_def empty_obj_def plain_options_def record_trigger_def idle_def note_read_def
  numeral_nat

lemma demo_state:
  "targetMap demo 0 = Some [(Some (KStr ''a''), 0), (Some (KSym Iterate), 1)]
   \<and> depStore demo 0 = [0, 1] \<and> depStore demo 1 = [0]
   \<and> computed (the_effect demo 1) \<and> \<not> computed (the_effect demo 0)
   \<and> \<not> isArray (heap demo 0)"
  by (simp add: demo_def demo_prog_def demo_heap_def engine_defs)

lemma demo_notified_ADD: "notified demo 0 ADD (Some (KStr ''a'')) = [1, 0]"
  using demo_state by (simp add: notified_def engine_defs)

theorem trigger_computed_first_once_witness:
  "notified demo 0 ADD (Some (KStr ''a'')) = [1, 0]
   \<and> computed (the_effect demo (notified demo 0 ADD (Some (KStr ''a'')) ! 0))
   \<and> \<not> computed (the_effect demo (notified demo 0 ADD (Some (KStr ''a'')) ! 1))
   \<and> distinct (notified demo 0 ADD (Some (KStr ''a'')))
   \<and> (0::nat) < 1"
  using trigger_computed_first_once [of idle 0 ADD "Some (KStr ''a'')" demo]
    demo_notified_ADD demo_state
  by simp

lemma both_addRunner:
  "set (fst (addRunner st acc e)) \<union> set (snd (addRunner st acc e))
     = insert e (set (fst acc) \<union> set (snd acc))"
  by (cases acc) (auto simp: addRunner_def set_set_add)

lemma both_foldl:
  "set (fst (foldl (addRunner st) acc es)) \<union> set (snd (foldl (addRunner st) acc es))
     = set (fst acc) \<union> set (snd acc) \<union> set es"
  by (induction es arbitrary: acc) (auto simp: both_addRunner)

lemma both_addRunners:
  "set (fst (addRunners st acc d)) \<union> set (snd (addRunners st acc d))
     = set (fst acc) \<union> set (snd acc) \<union> (case d of None \<Rightarrow> {} | Some x \<Rightarrow> set (depStore st x))"
  by (cases d) (simp_all add: addRunners_def both_foldl)

lemma both_clear:
  "set (fst (foldl (\<lambda>acc kd. addRunners st acc (Some (snd kd))) acc m))
     \<union> set (snd (foldl (\<lambda>acc kd. addRunners st acc (Some (snd kd))) acc m))
     = set (fst acc) \<union> set (snd acc) \<union> (\<Union>d\<in>snd ` set m. set (depStore st d))"
  by (induction m arbitrary: acc) (auto simp: both_addRunners)

lemma both_collect:
  "set (fst (collect st m t type k)) \<union> set (snd (collect st m t type k)) =
     (if type = CLEAR then (\<Union>d\<in>snd ` set m. set (depStore st d))
      else (case k of None \<Rightarrow> {} | Some x \<Rightarrow> dep_members st m (Some x))
           \<union> (if type = ADD \<or> type = DELETE
               then dep_members st m (Some (iterationKey st t)) else {}))"
proof (cases "type = CLEAR")
  case True
  then show ?thesis using both_clear [of st "([], [])" m] by (simp add: collect_def)
next
  case False
  then show ?thesis
    by (cases k)
       (simp_all add: collect_def Let_def both_addRunners dep_members_def iterationKey_def
          split: option.splits)
qed

lemma set_notified:
  "targetMap st t = Some m \<Longrightarrow>
   set (notified st t type k) = set (fst (collect st m t type k)) \<union> set (snd (collect st m t type k))"
  by (cases "collect st m t type k") (auto simp: notified_def)

text \<open>
  C6, amended.  On a target without a key map \<open>trigger\<close> returns at once
  and leaves the state as it is.  Otherwise the reactions it schedules are
  those of \<open>notified\<close>, a list computed from the state at entry alone, that
  is before any reaction is scheduled; for \<open>CLEAR\<close> they are the members
  of every dep of the target, and for every other type the members of the
  dep of the key (when a key is given) together with, for \<open>ADD\<close> and
  \<open>DELETE\<close>, the members of the dep of the iteration key, which is
  \<open>length\<close> for an array.
\<close>

theorem trigger_notifies_exactly:
  "(targetMap st t = None \<longrightarrow> trigger call t type k st = (Ret VUndefined, st))
   \<and> (\<forall>m. targetMap st t = Some m \<longrightarrow>
         trigger call t type k st = forEach (scheduleRun call) (notified st t type k) st
         \<and> set (notified st t type k) =
             (if type = CLEAR then (\<Union>d\<in>snd ` set m. set (depStore st d))
              else (case k of None \<Rightarrow> {} | Some x \<Rightarrow> dep_members st m (Some x))
                   \<union> (if type = ADD \<or> type = DELETE
                       then dep_members st m (Some (iterationKey st t)) else {})))"
  using trigger_forEach [of call t type k st] set_notified [of st t _ type k]
    both_collect [of st _ t type k]
  by (auto simp: trigger_def)

theorem trigger_notifies_exactly_witness:
  "targetMap demo 0 = Some [(Some (KStr ''a''), 0), (Some (KSym Iterate), 1)]
   \<and> set (notified demo 0 SET (Some (KStr ''a''))) = {0, 1}
   \<and> set (notified demo 0 DELETE (Some (KStr ''b''))) = {0}
   \<and> targetMap demo 5 = None \<and> trigger idle 5 SET (Some (KStr ''a'')) demo = (Ret VUndefined, demo)"
proof -
  have m: "targetMap demo 0 = Some [(Some (KStr ''a''), 0), (Some (KSym Iterate), 1)]"
    using demo_state by simp
  have n: "targetMap demo 5 = None"
    by (simp add: demo_def demo_prog_def demo_heap_def engine_defs)
  show ?thesis
    using trigger_notifies_exactly [of demo 0 idle SET "Some (KStr ''a'')"]
      trigger_notifies_exactly [of demo 0 idle DELETE "Some (KStr ''b'')"]
      trigger_notifies_exactly [of demo 5 idle SET "Some (KStr ''a'')"] m n demo_state
    by (auto simp: dep_members_def iterationKey_def ITERATE_KEY_def)
qed

text \<open>
  The claim C6 as it stands fails for \<open>CLEAR\<close>: nothing is subscribed to
  the key \<open>b\<close> of the object, yet \<open>trigger(target, CLEAR, 'b')\<close>
  schedules both reactions.
\<close>

theorem trigger_clear_counterexample:
  "targetMap demo 0 = Some [(Some (KStr ''a''), 0), (Some (KSym Iterate), 1)]
   \<and> dep_members demo [(Some (KStr ''a''), 0), (Some (KSym Iterate), 1)] (Some (KStr ''b'')) = {}
   \<and> set (notified demo 0 CLEAR (Some (KStr ''b''))) = {0, 1}"
  using demo_state by (auto simp: dep_members_def notified_def engine_defs)

section \<open>Properties of the traps\<close>

text \<open>
  C10.  With a well-known symbol as key the \<open>get\<close> trap returns what
  \<open>Reflect.get\<close> gave and leaves the state as it is: nothing is tracked,
  and the result is neither unwrapped (when it is a ref) nor wrapped (when it
  is an object).
\<close>

theorem get_trap_builtin_symbol:
  "get_trap call isReadonly t (KSym (WellKnown n)) receiver st
     = (Ret (Reflect_get st t (KSym (WellKnown n)) receiver), st)"
  by (simp add: get_trap_def isSymbol_def builtInSymbols_has_def)

lemma fired_record_trigger:
  "fired (snd (andThen (record_trigger t type k st) (\<lambda>_ st2. (Ret r, st2)))) = fired st @ [(t, type, k)]"
  by (simp add: record_trigger_def andThen_def)

lemma fired_Reflect_set: "fired (snd (Reflect_set t k v receiver st)) = fired st"
  by (simp add: Reflect_set_def set_props_def split: val.splits)




section \<open>Properties of run and of computed refs\<close>

lemma calls_set_deps [simp]: "calls (set_deps e ds st) = calls st"
  by (simp add: set_deps_def)

lemma calls_dep_delete_foldl: "calls (foldl (dep_delete e) st ds) = calls st"
  by (induction ds arbitrary: st) (simp_all add: dep_delete_def)

lemma calls_cleanup [simp]: "calls (cleanup e st) = calls st"
  by (simp add: cleanup_def Let_def calls_dep_delete_foldl)

lemma calls_subscribe [simp]: "calls (subscribe e d st) = calls st"
  by (simp add: subscribe_def)

lemma calls_subscribe_foldl: "calls (foldl (\<lambda>s d. subscribe e d s) st ds) = calls st"
  by (induction ds arbitrary: st) simp_all

lemma calls_trackChildRun [simp]: "calls (trackChildRun e st) = calls st"
  by (simp add: trackChildRun_def Let_def calls_subscribe_foldl)

lemma computedTable_set_deps [simp]: "computedTable (set_deps e ds st) = computedTable st"
  by (simp add: set_deps_def)

lemma computedTable_subscribe [simp]: "computedTable (subscribe e d st) = computedTable st"
  by (simp add: subscribe_def)

lemma computedTable_subscribe_foldl:
  "computedTable (foldl (\<lambda>s d. subscribe e d s) st ds) = computedTable st"
  by (induction ds arbitrary: st) simp_all

lemma computedTable_trackChildRun [simp]: "computedTable (trackChildRun e st) = computedTable st"
  by (simp add: trackChildRun_def Let_def computedTable_subscribe_foldl)

lemma run_stopped:
  "\<not> active (the_effect st e) \<Longrightarrow> run call e st = call (raw (the_effect st e)) (body_entry e st)"
  by (simp add: run_def body_entry_def invoke_def Let_def)

lemma run_active:
  "active (the_effect st e) \<Longrightarrow> e \<notin> set (activeReactiveEffectStack st) \<Longrightarrow>
   run call e st =
     (case call (raw (the_effect st e)) (body_entry e st) of
        (out, s') \<Rightarrow> (out, s'\<lparr>activeReactiveEffectStack := butlast (activeReactiveEffectStack s')\<rparr>))"
  by (simp add: run_def body_entry_def invoke_def Let_def cleanup_def the_effect_def set_deps_def
      split: prod.splits)

lemma run_on_stack:
  "active (the_effect st e) \<Longrightarrow> e \<in> set (activeReactiveEffectStack st) \<Longrightarrow>
   run call e st = (Ret VUndefined, st)"
  by (simp add: run_def Let_def)

lemmas demo_defs =
  engine_defs body_entry_def getter_of_def demo_written_def demo_def demo_prog_def demo_heap_def

lemma scheduleRun_computed:
  "scheduler (the_effect st e) = Some (ComputedScheduler c) \<Longrightarrow>
   scheduleRun call e st = (Ret VUndefined, set_cell c (\<lambda>cell. cell\<lparr>dirty := True\<rparr>) st)"
  by (simp add: scheduleRun_def run_scheduler_def set_cell_def)

lemma computed_get_clean:
  "\<not> dirty (computedTable st c) \<Longrightarrow>
   computed_get call c st = (Ret (cvalue (computedTable st c)), trackChildRun (runner (computedTable st c)) st)"
  by (simp add: computed_get_def andThen_def Let_def)

lemma computed_get_dirty:
  assumes d: "dirty (computedTable st c)"
    and on: "active (the_effect st (runner (computedTable st c))) \<longrightarrow>
             runner (computedTable st c) \<notin> set (activeReactiveEffectStack st)"
    and g: "call (getter_of st c) (body_entry (runner (computedTable st c)) st) = (Ret v, s')"
  shows "\<exists>s1. computed_get call c st = (Ret v, s1) \<and> calls s1 = calls s'
           \<and> \<not> dirty (computedTable s1 c) \<and> cvalue (computedTable s1 c) = v"
proof -
  let ?e = "runner (computedTable st c)"
  have "\<exists>s2. run call ?e st = (Ret v, s2) \<and> calls s2 = calls s'"
  proof (cases "active (the_effect st ?e)")
    case True
    then show ?thesis using on g run_active [of st ?e call] by (simp add: getter_of_def)
  next
    case False
    then show ?thesis using g run_stopped [of st ?e call] by (simp add: getter_of_def)
  qed
  then obtain s2 where r: "run call ?e st = (Ret v, s2)" and c2: "calls s2 = calls s'"
    by blast
  show ?thesis
    using d r c2 by (simp add: computed_get_def andThen_def Let_def set_cell_def)
qed

lemma calls_body_entry: "calls (body_entry e st) = calls st @ [raw (the_effect st e)]"
  by (simp add: body_entry_def Let_def)


lemma demo_facts:
  "\<not> dirty (computedTable demo 0) \<and> cvalue (computedTable demo 0) = VNum 1
   \<and> calls demo = [1, 2] \<and> runner (computedTable demo 0) = 1 \<and> getter_of demo 0 = 2
   \<and> scheduler (the_effect demo 1) = Some (ComputedScheduler 0)"
  by (simp add: demo_defs)

lemma demo_written_facts:
  "dirty (computedTable demo_written 0) \<and> cvalue (computedTable demo_written 0) = VNum 1
   \<and> calls demo_written = [1, 2, 1] \<and> runner (computedTable demo_written 0) = 1
   \<and> getter_of demo_written 0 = 2 \<and> active (the_effect demo_written 1)
   \<and> activeReactiveEffectStack demo_written = []
   \<and> raw (the_effect demo_written 1) = 2"
  by (simp add: demo_defs)

lemma demo_written_getter:
  "fst (sem demo_prog 1 2 (body_entry 1 demo_written)) = Ret (VNum 2)
   \<and> calls (snd (sem demo_prog 1 2 (body_entry 1 demo_written))) = [1, 2, 1, 2]"
  by (simp add: demo_defs)


lemma run_scheduler_computed:
  "run_scheduler call (ComputedScheduler c) st
     = (Ret VUndefined, set_cell c (\<lambda>cell. cell\<lparr>dirty := True\<rparr>) st)"
  by (simp add: run_scheduler_def set_cell_def)

text \<open>
  C3, amended.  \<open>scheduleRun\<close> runs the scheduler of an effect that has
  one, not the effect.  The scheduler of the closure-based \<open>computed\<close> sets
  \<open>dirty\<close> and does nothing else: the state is otherwise the one before,
  cached value included, and no reaction is called.  The scheduler of
  \<open>ComputedRefImpl\<close> sets the flag and notifies the subscribers of the
  computed ref when the flag was false, and does nothing when it was true;
  it never calls \<open>effect.run()\<close>.
\<close>

theorem scheduler_marks_dirty:
  "(scheduler (the_effect st e) = Some s \<longrightarrow> scheduleRun call e st = run_scheduler call s st)
   \<and> run_scheduler call (ComputedScheduler c) st
       = (Ret VUndefined, set_cell c (\<lambda>cell. cell\<lparr>dirty := True\<rparr>) st)
   \<and> (\<not> impl_dirty this \<longrightarrow>
        impl_scheduler this
          = this\<lparr>impl_dirty := True, impl_events := impl_events this @ [TriggerRefValue]\<rparr>)
   \<and> (impl_dirty this \<longrightarrow> impl_scheduler this = this)
   \<and> impl_runs (impl_scheduler this) = impl_runs this
   \<and> impl_value (impl_scheduler this) = impl_value this"
  by (simp add: scheduleRun_def run_scheduler_computed impl_scheduler_def impl_log_def
      impl_runs_def)

theorem scheduler_marks_dirty_witness:
  "scheduleRun idle 1 demo = (Ret VUndefined, set_cell 0 (\<lambda>cell. cell\<lparr>dirty := True\<rparr>) demo)
   \<and> impl_scheduler \<lparr>impl_dirty = False, impl_value = 5::int, impl_events = []\<rparr>
       = \<lparr>impl_dirty = True, impl_value = 5, impl_events = [TriggerRefValue]\<rparr>
   \<and> impl_scheduler \<lparr>impl_dirty = True, impl_value = 5::int, impl_events = []\<rparr>
       = \<lparr>impl_dirty = True, impl_value = 5, impl_events = []\<rparr>"
  using scheduler_marks_dirty
      [where st = demo and e = 1 and s = "ComputedScheduler 0" and call = idle and c = 0
         and this = "\<lparr>impl_dirty = False, impl_value = 5::int, impl_events = []\<rparr>"]
    scheduler_marks_dirty
      [where this = "\<lparr>impl_dirty = True, impl_value = 5::int, impl_events = []\<rparr>"]
    demo_facts
  by simp

text \<open>
  The claim C3 as it stands fails for \<open>ComputedRefImpl\<close> when the flag is
  already set: of two dependency changes in a row, with no read in between,
  only the first notifies the subscribers of the computed ref.
\<close>

theorem scheduler_already_dirty_counterexample:
  "impl_events (impl_scheduler \<lparr>impl_dirty = False, impl_value = 5::int, impl_events = []\<rparr>)
     = [TriggerRefValue]
   \<and> impl_events (impl_scheduler (impl_scheduler
        \<lparr>impl_dirty = False, impl_value = 5::int, impl_events = []\<rparr>)) = [TriggerRefValue]"
  by (simp add: impl_scheduler_def impl_log_def)

section \<open>The running stack\<close>

lemma note_read_simps [simp]:
  "activeReactiveEffectStack (note_read t k st) = activeReactiveEffectStack st"
  "heap (note_read t k st) = heap st"
  "calls (note_read t k st) = calls st"
  "targetMap (note_read t k st) = targetMap st"
  "depStore (note_read t k st) = depStore st"
  "nextDep (note_read t k st) = nextDep st"
  "shouldTrack (note_read t k st) = shouldTrack st"
  "effectTable (note_read t k st) = effectTable st"
  "the_effect (note_read t k st) = the_effect st"
  "prop_get (note_read t k st) = prop_get st"
  by (simp_all add: note_read_def the_effect_def prop_get_def fun_eq_iff)

lemma stk_set_deps [simp]: "activeReactiveEffectStack (set_deps e ds st) = activeReactiveEffectStack st"
  by (simp add: set_deps_def)

lemma stk_dep_delete_foldl: "activeReactiveEffectStack (foldl (dep_delete e) st ds) = activeReactiveEffectStack st"
  by (induction ds arbitrary: st) (simp_all add: dep_delete_def)

lemma stk_cleanup [simp]: "activeReactiveEffectStack (cleanup e st) = activeReactiveEffectStack st"
  by (simp add: cleanup_def Let_def stk_dep_delete_foldl)

lemma stk_subscribe [simp]: "activeReactiveEffectStack (subscribe e d st) = activeReactiveEffectStack st"
  by (simp add: subscribe_def)

lemma stk_subscribe_foldl: "activeReactiveEffectStack (foldl (\<lambda>s d. subscribe e d s) st ds) = activeReactiveEffectStack st"
  by (induction ds arbitrary: st) simp_all

lemma stk_trackChildRun [simp]: "activeReactiveEffectStack (trackChildRun e st) = activeReactiveEffectStack st"
  by (simp add: trackChildRun_def Let_def stk_subscribe_foldl)

lemma stk_track [simp]: "activeReactiveEffectStack (track t type k st) = activeReactiveEffectStack st"
  by (simp add: track_def getDepsMap_def getDep_def Let_def split: option.splits prod.splits)

lemma stk_set_cell [simp]: "activeReactiveEffectStack (set_cell c f st) = activeReactiveEffectStack st"
  by (simp add: set_cell_def)

lemma stk_set_props [simp]: "activeReactiveEffectStack (set_props t ps st) = activeReactiveEffectStack st"
  by (simp add: set_props_def)

lemma stk_andThen:
  assumes "activeReactiveEffectStack (snd r) = S" and "\<And>v s. activeReactiveEffectStack s = S \<Longrightarrow> activeReactiveEffectStack (snd (k v s)) = S"
  shows "activeReactiveEffectStack (snd (andThen r k)) = S"
  using assms by (cases r) (auto simp: andThen_def split: outcome.splits)

lemma stk_invoke: "preserves_stack call \<Longrightarrow> activeReactiveEffectStack (snd (invoke call f st)) = activeReactiveEffectStack st"
  by (simp add: preserves_stack_def invoke_def)

lemma stk_run: "preserves_stack call \<Longrightarrow> activeReactiveEffectStack (snd (run call e st)) = activeReactiveEffectStack st"
  by (auto simp: run_def Let_def preserves_stack_def invoke_def split: prod.splits
      dest!: arg_cong [where f = snd])

lemma stk_forEach:
  assumes "\<And>x s. activeReactiveEffectStack (snd (f x s)) = activeReactiveEffectStack s"
  shows "activeReactiveEffectStack (snd (forEach f xs st)) = activeReactiveEffectStack st"
proof (induction xs arbitrary: st)
  case Nil
  then show ?case by simp
next
  case (Cons x xs)
  obtain out s1 where r: "f x st = (out, s1)" by (cases "f x st")
  have "activeReactiveEffectStack s1 = activeReactiveEffectStack st" using assms [of x st] r by simp
  then show ?case using r Cons [of s1] by (cases out) simp_all
qed

lemma stk_run_scheduler:
  "preserves_stack call \<Longrightarrow> activeReactiveEffectStack (snd (run_scheduler call s st)) = activeReactiveEffectStack st"
  by (cases s) (simp_all add: run_scheduler_def stk_invoke)

lemma stk_scheduleRun:
  "preserves_stack call \<Longrightarrow> activeReactiveEffectStack (snd (scheduleRun call e st)) = activeReactiveEffectStack st"
  by (simp add: scheduleRun_def stk_run_scheduler stk_run split: option.splits)

lemma stk_trigger:
  "preserves_stack call \<Longrightarrow> activeReactiveEffectStack (snd (trigger call t type k st)) = activeReactiveEffectStack st"
  by (simp add: trigger_forEach stk_forEach stk_scheduleRun)

lemma stk_stop: "preserves_stack call \<Longrightarrow> activeReactiveEffectStack (snd (stop call e st)) = activeReactiveEffectStack st"
  by (auto simp: stop_def Let_def stk_invoke intro!: stk_andThen split: option.splits)

lemma stk_effect:
  "preserves_stack call \<Longrightarrow> activeReactiveEffectStack (snd (effect call fn options st)) = activeReactiveEffectStack st"
  by (auto simp: effect_def createReactiveEffect_def Let_def stk_run
      intro!: stk_andThen split: option.splits val.splits)

lemma stk_computed_get:
  "preserves_stack call \<Longrightarrow> activeReactiveEffectStack (snd (computed_get call c st)) = activeReactiveEffectStack st"
  by (auto simp: computed_get_def Let_def stk_run intro!: stk_andThen)

lemma stk_computed_set:
  "preserves_stack call \<Longrightarrow> activeReactiveEffectStack (snd (computed_set call c v st)) = activeReactiveEffectStack st"
  by (simp add: computed_set_def stk_invoke split: option.splits)

lemma stk_computed_make:
  "preserves_stack call \<Longrightarrow> activeReactiveEffectStack (snd (computed_make call g st)) = activeReactiveEffectStack st"
  by (auto simp: computed_make_def Let_def stk_effect intro!: stk_andThen split: val.splits)

lemma stk_ref_get_value:
  "preserves_stack call \<Longrightarrow> activeReactiveEffectStack (snd (ref_get_value call r st)) = activeReactiveEffectStack st"
  by (simp add: ref_get_value_def stk_computed_get split: val.splits)

lemma stk_get_trap:
  "preserves_stack call \<Longrightarrow> activeReactiveEffectStack (snd (get_trap call ro t k receiver st)) = activeReactiveEffectStack st"
  by (simp add: get_trap_def Let_def stk_ref_get_value)

lemma stk_Reflect_set: "activeReactiveEffectStack (snd (Reflect_set t k v receiver st)) = activeReactiveEffectStack st"
  by (simp add: Reflect_set_def split: val.splits)

lemma stk_set_trap:
  "preserves_stack call \<Longrightarrow> activeReactiveEffectStack (snd (set_trap call t k v receiver st)) = activeReactiveEffectStack st"
proof -
  assume p: "preserves_stack call"
  obtain result st1 where r: "Reflect_set t k (toRaw v) receiver st = (result, st1)"
    by (cases "Reflect_set t k (toRaw v) receiver st")
  have s1: "activeReactiveEffectStack st1 = activeReactiveEffectStack st" using stk_Reflect_set [of t k "toRaw v" receiver st] r by simp
  show ?thesis
    using p r s1
    by (auto simp: set_trap_def set_trap_with_def Let_def ref_set_value_def stk_trigger
        stk_computed_set intro!: stk_andThen split: val.splits)
qed

lemma stk_deleteProperty:
  "preserves_stack call \<Longrightarrow> activeReactiveEffectStack (snd (deleteProperty call t k st)) = activeReactiveEffectStack st"
  by (auto simp: deleteProperty_def deleteProperty_with_def Reflect_deleteProperty_def Let_def
      stk_trigger intro!: stk_andThen)

lemma stk_exec:
  "preserves_stack call \<Longrightarrow> activeReactiveEffectStack (snd (exec call p st)) = activeReactiveEffectStack st"
proof (induction p arbitrary: st)
  case (Has t k cont)
  then show ?case by (simp add: has_trap_def)
next
  case (OwnKeys t cont)
  then show ?case by (simp add: ownKeys_def Let_def)
qed (auto simp: stk_get_trap stk_set_trap stk_deleteProperty stk_run stk_invoke stk_effect
      stk_stop stk_computed_make stk_computed_get stk_computed_set readonly_set_trap_def
      readonly_deleteProperty_def pauseTracking_def resumeTracking_def
      intro!: stk_andThen)

lemma preserves_stack_sem: "preserves_stack (sem P n)"
proof (induction n)
  case 0
  then show ?case by (simp add: preserves_stack_def)
next
  case (Suc n)
  then show ?case using stk_exec [of "sem P n"] by (simp add: preserves_stack_def)
qed

lemma flags_set_deps [simp]:
  "active (the_effect (set_deps e ds st) x) = active (the_effect st x)"
  "scheduler (the_effect (set_deps e ds st) x) = scheduler (the_effect st x)"
  "raw (the_effect (set_deps e ds st) x) = raw (the_effect st x)"
  "computed (the_effect (set_deps e ds st) x) = computed (the_effect st x)"
  by (simp_all add: set_deps_def the_effect_def)

lemma effectTable_dep_delete_foldl: "effectTable (foldl (dep_delete e) st ds) = effectTable st"
  by (induction ds arbitrary: st) (simp_all add: dep_delete_def)

lemma flags_cleanup [simp]:
  "active (the_effect (cleanup e st) x) = active (the_effect st x)"
  "scheduler (the_effect (cleanup e st) x) = scheduler (the_effect st x)"
  "raw (the_effect (cleanup e st) x) = raw (the_effect st x)"
  "computed (the_effect (cleanup e st) x) = computed (the_effect st x)"
  by (simp_all add: cleanup_def Let_def)
     (simp_all add: the_effect_def effectTable_dep_delete_foldl)

lemma flags_subscribe [simp]:
  "active (the_effect (subscribe e d st) x) = active (the_effect st x)"
  "scheduler (the_effect (subscribe e d st) x) = scheduler (the_effect st x)"
  "raw (the_effect (subscribe e d st) x) = raw (the_effect st x)"
  "computed (the_effect (subscribe e d st) x) = computed (the_effect st x)"
  by (simp_all add: subscribe_def) (simp_all add: the_effect_def)

lemma flags_track [simp]:
  "active (the_effect (track t type k st) x) = active (the_effect st x)"
  "scheduler (the_effect (track t type k st) x) = scheduler (the_effect st x)"
  "raw (the_effect (track t type k st) x) = raw (the_effect st x)"
  "computed (the_effect (track t type k st) x) = computed (the_effect st x)"
  by (simp_all add: track_def getDepsMap_def getDep_def Let_def split: option.splits prod.splits)
     (simp_all add: the_effect_def)

lemma heap_set_deps [simp]: "heap (set_deps e ds st) = heap st"
  by (simp add: set_deps_def)

lemma heap_dep_delete_foldl: "heap (foldl (dep_delete e) st ds) = heap st"
  by (induction ds arbitrary: st) (simp_all add: dep_delete_def)

lemma heap_cleanup [simp]: "heap (cleanup e st) = heap st"
  by (simp add: cleanup_def Let_def heap_dep_delete_foldl)

lemma heap_subscribe [simp]: "heap (subscribe e d st) = heap st"
  by (simp add: subscribe_def)

lemma heap_track [simp]: "heap (track t type k st) = heap st"
  by (simp add: track_def getDepsMap_def getDep_def Let_def split: option.splits prod.splits)

lemma calls_track [simp]: "calls (track t type k st) = calls st"
  by (simp add: track_def getDepsMap_def getDep_def Let_def split: option.splits prod.splits)

lemma targetMap_set_deps [simp]: "targetMap (set_deps e ds st) = targetMap st"
  by (simp add: set_deps_def)

lemma depStore_set_deps [simp]: "depStore (set_deps e ds st) = depStore st"
  by (simp add: set_deps_def)

lemma targetMap_dep_delete_foldl: "targetMap (foldl (dep_delete e) st ds) = targetMap st"
  by (induction ds arbitrary: st) (simp_all add: dep_delete_def)

lemma depStore_dep_delete_foldl_subset:
  "set (depStore (foldl (dep_delete e) st ds) d) \<subseteq> set (depStore st d)"
proof (induction ds arbitrary: st)
  case Nil
  then show ?case by simp
next
  case (Cons a ds)
  have "set (depStore (dep_delete e st a) d) \<subseteq> set (depStore st d)"
    by (auto simp: dep_delete_def set_delete_def)
  then show ?case using Cons [of "dep_delete e st a"] by auto
qed

lemma targetMap_cleanup [simp]: "targetMap (cleanup e st) = targetMap st"
  by (simp add: cleanup_def Let_def targetMap_dep_delete_foldl)

lemma depStore_cleanup_subset: "set (depStore (cleanup e st) d) \<subseteq> set (depStore st d)"
  by (simp add: cleanup_def Let_def depStore_dep_delete_foldl_subset)

lemma only_subscriber_cleanup:
  "only_subscriber e t st \<Longrightarrow> only_subscriber e t (cleanup x st)"
  using depStore_cleanup_subset [of x st]
  by (auto simp: only_subscriber_def list_all_iff split: option.splits)

lemma only_subscriber_track:
  assumes "only_subscriber e t st" and "activeReactiveEffectStack st \<noteq> []" and "last (activeReactiveEffectStack st) = e"
  shows "only_subscriber e t (track t type k st)"
  using assms
  by (auto simp: only_subscriber_def track_def getDepsMap_def getDep_def subscribe_def
      set_add_def Let_def list_all_iff split: option.splits if_splits)

lemma forEach_noop:
  "(\<And>x. x \<in> set xs \<Longrightarrow> f x st = (Ret VUndefined, st)) \<Longrightarrow> forEach f xs st = (Ret VUndefined, st)"
  by (induction xs) simp_all

lemma notified_only_subscriber:
  assumes "only_subscriber e t st"
  shows "set (notified st t type k) \<subseteq> {e}"
proof (cases "targetMap st t")
  case None
  then show ?thesis by (simp add: notified_def)
next
  case (Some m)
  have all: "\<And>k' d. map_of m k' = Some d \<Longrightarrow> set (depStore st d) \<subseteq> {e}"
    using assms Some by (fastforce simp: only_subscriber_def list_all_iff dest!: map_of_SomeD)
  have "\<And>k'. dep_members st m k' \<subseteq> {e}"
    using all by (auto simp: dep_members_def split: option.splits)
  moreover have "(\<Union>d\<in>snd ` set m. set (depStore st d)) \<subseteq> {e}"
    using assms Some by (auto simp: only_subscriber_def list_all_iff)
  ultimately show ?thesis
    unfolding set_notified [OF Some] both_collect
    by (auto split: option.splits if_splits)
qed

lemma trigger_only_subscriber:
  assumes "only_subscriber e t st" and "active (the_effect st e)" and "e \<in> set (activeReactiveEffectStack st)"
    and "scheduler (the_effect st e) = None"
  shows "trigger call t type k st = (Ret VUndefined, st)"
proof -
  have "scheduleRun call e st = (Ret VUndefined, st)"
    using assms by (simp add: scheduleRun_def run_on_stack)
  then show ?thesis
    using notified_only_subscriber [OF assms(1), of type k]
    by (auto simp: trigger_forEach intro!: forEach_noop)
qed

lemma map_of_put_prop: "map_of (put_prop k v ps) k = Some v"
  by (induction ps) auto

lemma only_subscriber_heap:
  "only_subscriber e t (set_props a ps st) = only_subscriber e t st"
  by (simp add: only_subscriber_def set_props_def split: option.splits)

lemma flags_set_props [simp]:
  "the_effect (set_props a ps st) x = the_effect st x"
  by (simp add: set_props_def the_effect_def)

lemma calls_set_props [simp]: "calls (set_props a ps st) = calls st"
  by (simp add: set_props_def)

lemma only_subscriber_entry:
  "only_subscriber e t st \<Longrightarrow> only_subscriber e t (body_entry e st)"
  using only_subscriber_cleanup [of e t st e]
  by (simp add: body_entry_def Let_def only_subscriber_def split: option.splits)

lemma stk_body_entry:
  "active (the_effect st e) \<Longrightarrow> activeReactiveEffectStack (body_entry e st) = activeReactiveEffectStack st @ [e]"
  by (simp add: body_entry_def Let_def)

lemma heap_body_entry [simp]: "heap (body_entry e st) = heap st"
  by (simp add: body_entry_def Let_def)

lemma the_effect_calls [simp]: "the_effect (st\<lparr>calls := x\<rparr>) = the_effect st"
  by (simp add: the_effect_def fun_eq_iff)

lemma the_effect_stack [simp]:
  "the_effect (st\<lparr>activeReactiveEffectStack := x\<rparr>) = the_effect st"
  by (simp add: the_effect_def fun_eq_iff)

lemma flags_body_entry [simp]:
  "active (the_effect (body_entry e st) x) = active (the_effect st x)"
  "scheduler (the_effect (body_entry e st) x) = scheduler (the_effect st x)"
  by (simp_all add: body_entry_def Let_def)

lemma set_trap_self:
  assumes "only_subscriber e t s" and "active (the_effect s e)" and "e \<in> set (activeReactiveEffectStack s)"
    and "scheduler (the_effect s e) = None" and "\<not> isRef (prop_get s t k)"
  shows "set_trap call t k v (VProxy t False) s
           = (Ret (VBool True), set_props t (put_prop k (toRaw v) (props (heap s t))) s)"
proof -
  let ?s2 = "set_props t (put_prop k (toRaw v) (props (heap s t))) s"
  have t2: "\<And>type. trigger call t type (Some k) ?s2 = (Ret VUndefined, ?s2)"
    using assms by (intro trigger_only_subscriber [where e = e]) (simp_all add: only_subscriber_heap)
  show ?thesis
    using assms(5) t2
    by (simp add: set_trap_def set_trap_with_def Let_def Reflect_set_def toRaw_def andThen_def)
qed

lemma get_trap_self:
  assumes "\<not> isRef (prop_get s t k)"
  shows "\<exists>v s1. get_trap call False t k receiver s = (Ret v, s1)
          \<and> (s1 = s \<or> s1 = track t GET (Some k) s)"
  using assms by (simp add: get_trap_def Let_def Reflect_get_def)

lemma incr_body_exec:
  assumes o: "only_subscriber e t s" and a: "active (the_effect s e)"
    and top: "activeReactiveEffectStack s \<noteq> []" "last (activeReactiveEffectStack s) = e"
    and sch: "scheduler (the_effect s e) = None" and nr: "\<not> isRef (prop_get s t k)"
  shows "\<exists>v s'. exec call (incr_body t k g) s = (Ret v, s') \<and> calls s' = calls s
           \<and> prop_get s' t k = toRaw (g v)"
proof -
  let ?n = "note_read t (Some k) s"
  have nr': "\<not> isRef (prop_get ?n t k)" using nr by simp
  have o': "only_subscriber e t ?n"
    using o by (simp add: only_subscriber_def split: option.splits)
  have top': "activeReactiveEffectStack ?n \<noteq> []" "last (activeReactiveEffectStack ?n) = e"
    using top by simp_all
  obtain v s1 where g: "get_trap call False t k (VProxy t False) ?n = (Ret v, s1)"
    and s1: "s1 = ?n \<or> s1 = track t GET (Some k) ?n"
    using get_trap_self [OF nr'] by blast
  have e_in: "e \<in> set (activeReactiveEffectStack s)" using top by (metis last_in_set)
  have p1: "only_subscriber e t s1" "active (the_effect s1 e)" "e \<in> set (activeReactiveEffectStack s1)"
    "scheduler (the_effect s1 e) = None" "\<not> isRef (prop_get s1 t k)" "calls s1 = calls s"
    using s1 o' a sch nr e_in only_subscriber_track [OF o' top', of GET "Some k"]
    by (auto simp: prop_get_def)
  show ?thesis
    using g set_trap_self [OF p1(1-5), of call "g v"] p1(6)
    by (simp add: incr_body_def andThen_def prop_get_def set_props_def map_of_put_prop)
qed


lemmas scenario_defs =
  engine_defs body_entry_def lazy_options_def counter_made_def counter_prog_def incr_body_def
  plus_one_def self_stop_prog_def stopped_inside_def stop_read_prog_def throw_prog_def
  thrower_made_def demo_heap_def only_subscriber_def

lemma counter_made_facts:
  "active (the_effect counter_made 0) \<and> activeReactiveEffectStack counter_made = []
   \<and> scheduler (the_effect counter_made 0) = None \<and> raw (the_effect counter_made 0) = 1
   \<and> \<not> isRef (prop_get counter_made 0 (KStr ''n'')) \<and> only_subscriber 0 0 counter_made
   \<and> calls counter_made = []"
  by (simp add: scenario_defs)

lemma counter_run:
  "fst (run (sem counter_prog 1) 0 counter_made) = Ret (VNum 0)
   \<and> prop_get (snd (run (sem counter_prog 1) 0 counter_made)) 0 (KStr ''n'') = VNum 1"
  by (simp add: scenario_defs)



text \<open>
  C8.  Whatever the program, the fuel and the outcome, \<open>run\<close> leaves the
  running stack as it found it; and when the body of an active reaction that
  is not yet running throws, \<open>run\<close> throws the same value, from the state
  in which the body threw with the stack put back.
\<close>

theorem run_pops_when_body_throws:
  "activeReactiveEffectStack (snd (run (sem P n) e st)) = activeReactiveEffectStack st
   \<and> (active (the_effect st e) \<and> e \<notin> set (activeReactiveEffectStack st)
       \<and> sem P n (raw (the_effect st e)) (body_entry e st) = (Thrown x, s')
      \<longrightarrow> run (sem P n) e st
            = (Thrown x, s'\<lparr>activeReactiveEffectStack := activeReactiveEffectStack st\<rparr>))"
proof (intro conjI impI)
  show "activeReactiveEffectStack (snd (run (sem P n) e st)) = activeReactiveEffectStack st"
    by (simp add: stk_run preserves_stack_sem)
next
  assume h: "active (the_effect st e) \<and> e \<notin> set (activeReactiveEffectStack st)
       \<and> sem P n (raw (the_effect st e)) (body_entry e st) = (Thrown x, s')"
  have "activeReactiveEffectStack s' = activeReactiveEffectStack (body_entry e st)"
    using preserves_stack_sem [of P n] h
    by (metis preserves_stack_def snd_conv)
  then have "butlast (activeReactiveEffectStack s') = activeReactiveEffectStack st"
    using h by (simp add: stk_body_entry)
  then show "run (sem P n) e st
            = (Thrown x, s'\<lparr>activeReactiveEffectStack := activeReactiveEffectStack st\<rparr>)"
    using h by (simp add: run_active)
qed

lemma thrower_facts:
  "active (the_effect thrower_made 0) \<and> activeReactiveEffectStack thrower_made = []
   \<and> raw (the_effect thrower_made 0) = 1
   \<and> fst (sem throw_prog 1 1 (body_entry 0 thrower_made)) = Thrown (VStr ''boom'')
   \<and> activeReactiveEffectStack (body_entry 0 thrower_made) = [0]"
  by (simp add: scenario_defs)

theorem run_pops_when_body_throws_witness:
  "fst (run (sem throw_prog 1) 0 thrower_made) = Thrown (VStr ''boom'')
   \<and> activeReactiveEffectStack (snd (run (sem throw_prog 1) 0 thrower_made)) = []"
proof -
  obtain s' where b: "sem throw_prog 1 1 (body_entry 0 thrower_made) = (Thrown (VStr ''boom''), s')"
    using thrower_facts by (cases "sem throw_prog 1 1 (body_entry 0 thrower_made)") auto
  show ?thesis
    using run_pops_when_body_throws [where P = throw_prog and n = 1 and e = 0
        and st = thrower_made and x = "VStr ''boom''" and s' = s'] b thrower_facts
    by simp
qed

section \<open>Membership in the Dependency Sets\<close>

lemma map_of_snoc:
  "map_of (m @ [(k, d)]) k1 = (case map_of m k1 of Some x \<Rightarrow> Some x | None \<Rightarrow> if k1 = k then Some d else None)"
  by (induction m) (auto split: option.splits)

lemma dep_at_track:
  assumes "shouldTrack st" and "activeReactiveEffectStack st \<noteq> []"
  shows "dep_at (track t type k st) t1 k1 =
           (if t1 = t \<and> k1 = norm_key type k then Some (track_dep t (norm_key type k) st)
            else dep_at st t1 k1)"
  using assms
  by (auto simp: track_def getDepsMap_def getDep_def subscribe_def dep_at_def norm_key_def
      track_dep_def set_deps_def Let_def map_add_def split: option.splits)

lemma depStore_track:
  assumes "shouldTrack st" and "activeReactiveEffectStack st \<noteq> []"
  shows "set (depStore (track t type k st) d1) =
           (if d1 = track_dep t (norm_key type k) st
            then insert (last (activeReactiveEffectStack st))
                   (case dep_at st t (norm_key type k) of None \<Rightarrow> {} | Some d \<Rightarrow> set (depStore st d))
            else set (depStore st d1))"
  using assms
  by (auto simp: track_def getDepsMap_def getDep_def subscribe_def dep_at_def norm_key_def
      track_dep_def set_add_def set_deps_def Let_def split: option.splits)

lemma nextDep_track:
  assumes "shouldTrack st" and "activeReactiveEffectStack st \<noteq> []"
  shows "nextDep (track t type k st) =
           (case dep_at st t (norm_key type k) of None \<Rightarrow> Suc (nextDep st) | Some d \<Rightarrow> nextDep st)"
  using assms
  by (auto simp: track_def getDepsMap_def getDep_def subscribe_def dep_at_def norm_key_def
      set_deps_def Let_def split: option.splits)

lemma wf_store_track:
  assumes w: "wf_store st" and s: "shouldTrack st" "activeReactiveEffectStack st \<noteq> []"
  shows "wf_store (track t type k st)"
proof -
  let ?k = "norm_key type k"
  show ?thesis
  proof (cases "dep_at st t ?k")
    case None
    then show ?thesis
      using w
      unfolding wf_store_def dep_at_track [OF s] nextDep_track [OF s] track_dep_def
      by (simp split: if_splits) (metis less_Suc_eq less_irrefl)
  next
    case (Some d)
    then show ?thesis
      using w
      unfolding wf_store_def dep_at_track [OF s] nextDep_track [OF s] track_dep_def
      by (simp split: if_splits) metis
  qed
qed

lemma subscribers_track:
  assumes w: "wf_store st" and s: "shouldTrack st" "activeReactiveEffectStack st \<noteq> []"
  shows "x \<in> subscribers (track t type k st) t1 k1 \<longleftrightarrow>
           x \<in> subscribers st t1 k1
           \<or> (x = last (activeReactiveEffectStack st) \<and> t1 = t \<and> k1 = norm_key type k)"
proof -
  let ?k = "norm_key type k"
  show ?thesis
  proof (cases "t1 = t \<and> k1 = ?k")
    case True
    then show ?thesis
      by (auto simp: subscribers_def dep_at_track [OF s] depStore_track [OF s]
          split: option.splits)
  next
    case False
    have "dep_at st t1 k1 \<noteq> Some (track_dep t ?k st)"
    proof
      assume a: "dep_at st t1 k1 = Some (track_dep t ?k st)"
      show False
      proof (cases "dep_at st t ?k")
        case None
        then show False using a w by (auto simp: track_dep_def wf_store_def)
      next
        case (Some d)
        then have "t1 = t \<and> k1 = ?k" using a w unfolding track_dep_def wf_store_def
          by (simp del: not_None_eq) blast
        then show False using False by simp
      qed
    qed
    then show ?thesis
      using False
      by (auto simp: subscribers_def dep_at_track [OF s] depStore_track [OF s]
          split: option.splits)
  qed
qed

lemma misc_track [simp]:
  "shouldTrack (track t type k st) = shouldTrack st"
  "readLog (track t type k st) = readLog st"
  by (simp_all add: track_def getDepsMap_def getDep_def subscribe_def set_deps_def Let_def
      split: option.splits prod.splits)

lemma dep_at_note_read [simp]: "dep_at (note_read t k st) = dep_at st"
  by (simp add: dep_at_def fun_eq_iff)

lemma subscribers_note_read [simp]: "subscribers (note_read t k st) = subscribers st"
  by (simp add: subscribers_def fun_eq_iff split: option.splits)

lemma wf_store_note_read [simp]: "wf_store (note_read t k st) = wf_store st"
  by (simp add: wf_store_def)

lemma readLog_note_read [simp]:
  "readLog (note_read t k st) = readLog st @ [(activeReactiveEffectStack st, t, k)]"
  by (simp add: note_read_def)

lemma wrapped_heap: "heap s = heap s' \<Longrightarrow> wrapped s ro v = wrapped s' ro v"
  by (simp add: wrapped_def reactive_def readonly_def split: val.splits)

lemma plain_reader_heap: "heap s = heap s' \<Longrightarrow> plain_reader s p = plain_reader s' p"
  by (induction p)
     (simp_all add: prop_get_def hasOwn_def Reflect_ownKeys_def wrapped_heap [of s s'])

lemma locations_Cons: "locations ((stk, t, k) # xs) = insert (t, k) (locations xs)"
  by (simp add: locations_def)

lemma get_trap_plain:
  assumes "\<not> (isSymbol k \<and> builtInSymbols_has k)" and "\<not> isRef (prop_get s t k)"
  shows "get_trap call ro t k receiver s
           = (Ret (wrapped s ro (prop_get s t k)), track t GET (Some k) s)"
proof -
  have "get_trap call ro t k receiver s
          = (Ret (wrapped (track t GET (Some k) s) ro (prop_get s t k)), track t GET (Some k) s)"
    using assms by (auto simp: get_trap_def Let_def Reflect_get_def wrapped_def)
  then show ?thesis using wrapped_heap [of "track t GET (Some k) s" s] by simp
qed

lemma plain_reader_exec:
  assumes "plain_reader s p" and "wf_store s" and "shouldTrack s"
    and "activeReactiveEffectStack s \<noteq> []"
  shows "\<exists>out s' xs. exec call p s = (out, s') \<and> out \<noteq> OutOfFuel
           \<and> readLog s' = readLog s @ xs \<and> calls s' = calls s
           \<and> activeReactiveEffectStack s' = activeReactiveEffectStack s
           \<and> wf_store s' \<and> shouldTrack s' \<and> heap s' = heap s
           \<and> (\<forall>x t k. x \<in> subscribers s' t k \<longleftrightarrow>
                 x \<in> subscribers s t k
                 \<or> (x = last (activeReactiveEffectStack s) \<and> (t, k) \<in> locations xs))"
  using assms
proof (induction p arbitrary: s)
  case (Return v)
  then show ?case by (simp add: locations_def)
next
  case (Throw v)
  then show ?case by (simp add: locations_def)
next
  case (Get ro t k cont)
  let ?n = "note_read t (Some k) s"
  let ?s1 = "track t GET (Some k) ?n"
  let ?v = "wrapped s ro (prop_get s t k)"
  have g: "get_trap call ro t k (VProxy t ro) ?n = (Ret ?v, ?s1)"
    using Get.prems(1) get_trap_plain [of k ?n t call ro "VProxy t ro"]
    by (simp add: wrapped_heap [of ?n s])
  have s: "shouldTrack ?n" "activeReactiveEffectStack ?n \<noteq> []" and w: "wf_store ?n"
    using Get.prems by simp_all
  have p1: "plain_reader ?s1 (cont ?v)"
    using Get.prems(1) plain_reader_heap [of ?s1 s "cont ?v"] by simp
  have w1: "wf_store ?s1" using wf_store_track [OF w s] .
  obtain out s' xs where e: "exec call (cont ?v) ?s1 = (out, s')" and o: "out \<noteq> OutOfFuel"
    and l: "readLog s' = readLog ?s1 @ xs" and c: "calls s' = calls ?s1"
    and k: "activeReactiveEffectStack s' = activeReactiveEffectStack ?s1"
    and i: "wf_store s'" "shouldTrack s'" "heap s' = heap ?s1"
    and m: "\<forall>x t' k'. x \<in> subscribers s' t' k' \<longleftrightarrow> x \<in> subscribers ?s1 t' k'
              \<or> (x = last (activeReactiveEffectStack ?s1) \<and> (t', k') \<in> locations xs)"
    using Get.IH [of "cont ?v" ?s1, OF _ p1 w1] Get.prems by auto
  have "exec call (Get ro t k cont) s = (out, s')"
    using g e by (simp add: andThen_def)
  moreover have "readLog s' = readLog s @ (activeReactiveEffectStack s, t, Some k) # xs"
    using l by simp
  moreover have "\<forall>x t' k'. x \<in> subscribers s' t' k' \<longleftrightarrow> x \<in> subscribers s t' k'
       \<or> (x = last (activeReactiveEffectStack s)
           \<and> (t', k') \<in> locations ((activeReactiveEffectStack s, t, Some k) # xs))"
    using m subscribers_track [OF w s, of _ t GET "Some k"]
    by (auto simp: locations_Cons norm_key_def)
  ultimately show ?case using o c k i by fastforce
next
  case (Has t k cont)
  let ?n = "note_read t (Some k) s"
  let ?s1 = "track t HAS (Some k) ?n"
  let ?v = "hasOwn s t k"
  have s: "shouldTrack ?n" "activeReactiveEffectStack ?n \<noteq> []" and w: "wf_store ?n"
    using Has.prems by simp_all
  have p1: "plain_reader ?s1 (cont ?v)"
    using Has.prems(1) plain_reader_heap [of ?s1 s "cont ?v"] by simp
  have w1: "wf_store ?s1" using wf_store_track [OF w s] .
  obtain out s' xs where e: "exec call (cont ?v) ?s1 = (out, s')" and o: "out \<noteq> OutOfFuel"
    and l: "readLog s' = readLog ?s1 @ xs" and c: "calls s' = calls ?s1"
    and k: "activeReactiveEffectStack s' = activeReactiveEffectStack ?s1"
    and i: "wf_store s'" "shouldTrack s'" "heap s' = heap ?s1"
    and m: "\<forall>x t' k'. x \<in> subscribers s' t' k' \<longleftrightarrow> x \<in> subscribers ?s1 t' k'
              \<or> (x = last (activeReactiveEffectStack ?s1) \<and> (t', k') \<in> locations xs)"
    using Has.IH [of "cont ?v" ?s1, OF _ p1 w1] Has.prems by auto
  have "exec call (Has t k cont) s = (out, s')"
    using e by (simp add: has_trap_def hasOwn_def)
  moreover have "readLog s' = readLog s @ (activeReactiveEffectStack s, t, Some k) # xs"
    using l by simp
  moreover have "\<forall>x t' k'. x \<in> subscribers s' t' k' \<longleftrightarrow> x \<in> subscribers s t' k'
       \<or> (x = last (activeReactiveEffectStack s)
           \<and> (t', k') \<in> locations ((activeReactiveEffectStack s, t, Some k) # xs))"
    using m subscribers_track [OF w s, of _ t HAS "Some k"]
    by (auto simp: locations_Cons norm_key_def)
  ultimately show ?case using o c k i by fastforce
next
  case (OwnKeys t cont)
  let ?n = "note_read t (Some ITERATE_KEY) s"
  let ?s1 = "track t ITERATE None ?n"
  let ?v = "Reflect_ownKeys s t"
  have s: "shouldTrack ?n" "activeReactiveEffectStack ?n \<noteq> []" and w: "wf_store ?n"
    using OwnKeys.prems by simp_all
  have p1: "plain_reader ?s1 (cont ?v)"
    using OwnKeys.prems(1) plain_reader_heap [of ?s1 s "cont ?v"] by simp
  have w1: "wf_store ?s1" using wf_store_track [OF w s] .
  obtain out s' xs where e: "exec call (cont ?v) ?s1 = (out, s')" and o: "out \<noteq> OutOfFuel"
    and l: "readLog s' = readLog ?s1 @ xs" and c: "calls s' = calls ?s1"
    and k: "activeReactiveEffectStack s' = activeReactiveEffectStack ?s1"
    and i: "wf_store s'" "shouldTrack s'" "heap s' = heap ?s1"
    and m: "\<forall>x t' k'. x \<in> subscribers s' t' k' \<longleftrightarrow> x \<in> subscribers ?s1 t' k'
              \<or> (x = last (activeReactiveEffectStack ?s1) \<and> (t', k') \<in> locations xs)"
    using OwnKeys.IH [of "cont ?v" ?s1, OF _ p1 w1] OwnKeys.prems by auto
  have "exec call (OwnKeys t cont) s = (out, s')"
    using e by (simp add: ownKeys_def Let_def Reflect_ownKeys_def)
  moreover have "readLog s' = readLog s @ (activeReactiveEffectStack s, t, Some ITERATE_KEY) # xs"
    using l by simp
  moreover have "\<forall>x t' k'. x \<in> subscribers s' t' k' \<longleftrightarrow> x \<in> subscribers s t' k'
       \<or> (x = last (activeReactiveEffectStack s)
           \<and> (t', k') \<in> locations ((activeReactiveEffectStack s, t, Some ITERATE_KEY) # xs))"
    using m subscribers_track [OF w s, of _ t ITERATE None]
    by (auto simp: locations_Cons norm_key_def)
  ultimately show ?case using o c k i by fastforce
next
  case (RawGet t k cont)
  then show ?case by simp
qed simp_all

lemma depStore_foldl_dep_delete:
  "set (depStore (foldl (dep_delete e) st ds) d) =
     (if d \<in> set ds then set (depStore st d) - {e} else set (depStore st d))"
  by (induction ds arbitrary: st) (auto simp: dep_delete_def set_delete_def)

lemma cleanup_clears: "linked e st \<Longrightarrow> e \<notin> set (depStore (cleanup e st) d)"
  by (auto simp: cleanup_def linked_def Let_def depStore_foldl_dep_delete split: if_splits)

lemma cleanup_deps: "deps (the_effect (cleanup e st) e) = []"
  by (simp add: cleanup_def Let_def set_deps_def the_effect_def)

lemma nextDep_foldl_dep_delete: "nextDep (foldl (dep_delete e) st ds) = nextDep st"
  by (induction ds arbitrary: st) (simp_all add: dep_delete_def)

lemma misc_foldl_dep_delete:
  "shouldTrack (foldl (dep_delete e) st ds) = shouldTrack st"
  "readLog (foldl (dep_delete e) st ds) = readLog st"
  by (induction ds arbitrary: st) (simp_all add: dep_delete_def)

lemma misc_cleanup [simp]:
  "nextDep (cleanup e st) = nextDep st"
  "shouldTrack (cleanup e st) = shouldTrack st"
  "readLog (cleanup e st) = readLog st"
  by (simp_all add: cleanup_def Let_def set_deps_def nextDep_foldl_dep_delete
      misc_foldl_dep_delete)

lemma dep_at_cleanup [simp]: "dep_at (cleanup e st) = dep_at st"
  by (simp add: dep_at_def fun_eq_iff)

lemma wf_store_cleanup [simp]: "wf_store (cleanup e st) = wf_store st"
  by (simp add: wf_store_def)

lemma entry_facts:
  assumes "active (the_effect st e)"
  shows "wf_store (body_entry e st) = wf_store st"
    and "shouldTrack (body_entry e st) = shouldTrack st"
    and "readLog (body_entry e st) = readLog st"
    and "linked e st \<Longrightarrow> e \<notin> subscribers (body_entry e st) t k"
    and "linked e st \<Longrightarrow> e \<notin> set (depStore (body_entry e st) d)"
    and "deps (the_effect (body_entry e st) e) = []"
proof -
  let ?c = "cleanup e st"
  have d: "dep_at (body_entry e st) = dep_at ?c" "nextDep (body_entry e st) = nextDep ?c"
    "depStore (body_entry e st) = depStore ?c"
    using assms by (simp_all add: body_entry_def Let_def dep_at_def fun_eq_iff)
  show "wf_store (body_entry e st) = wf_store st"
    using d wf_store_cleanup [of e st] by (simp add: wf_store_def)
  show "shouldTrack (body_entry e st) = shouldTrack st"
    and "readLog (body_entry e st) = readLog st"
    using assms by (simp_all add: body_entry_def Let_def)
  show "linked e st \<Longrightarrow> e \<notin> set (depStore (body_entry e st) d)"
    using d cleanup_clears [of e st d] by simp
  then show "linked e st \<Longrightarrow> e \<notin> subscribers (body_entry e st) t k"
    using d cleanup_clears [of e st] by (auto simp: subscribers_def split: option.splits)
  show "deps (the_effect (body_entry e st) e) = []"
    using assms cleanup_deps [of e st] by (simp add: body_entry_def Let_def)
qed

lemma subscribers_pop [simp]:
  "subscribers (st\<lparr>activeReactiveEffectStack := x\<rparr>) = subscribers st"
  by (simp add: subscribers_def dep_at_def fun_eq_iff split: option.splits)

lemma run_plain_reader:
  assumes a: "active (the_effect st e)" and n: "e \<notin> set (activeReactiveEffectStack st)"
    and w: "wf_store st" and l: "linked e st" and t: "shouldTrack st"
    and p: "plain_reader st (P (raw (the_effect st e)))"
  shows "\<exists>out s' xs. run (sem P (Suc n')) e st = (out, s') \<and> out \<noteq> OutOfFuel
           \<and> readLog s' = readLog st @ xs
           \<and> (\<forall>t k. e \<in> subscribers s' t k \<longleftrightarrow> (t, k) \<in> locations xs)"
proof -
  let ?s = "body_entry e st"
  let ?p = "P (raw (the_effect st e))"
  have k: "activeReactiveEffectStack ?s = activeReactiveEffectStack st @ [e]"
    using a by (rule stk_body_entry)
  have "plain_reader ?s ?p" using p plain_reader_heap [of ?s st ?p] by simp
  moreover have "wf_store ?s" "shouldTrack ?s" using entry_facts [OF a] w t by simp_all
  moreover have "activeReactiveEffectStack ?s \<noteq> []" using k by simp
  ultimately obtain out s' xs where x: "exec (sem P n') ?p ?s = (out, s')"
    and o: "out \<noteq> OutOfFuel" and r: "readLog s' = readLog ?s @ xs"
    and m: "\<forall>x t k. x \<in> subscribers s' t k \<longleftrightarrow>
                 x \<in> subscribers ?s t k
                 \<or> (x = last (activeReactiveEffectStack ?s) \<and> (t, k) \<in> locations xs)"
    using plain_reader_exec [of ?s ?p "sem P n'"] by blast
  have "run (sem P (Suc n')) e st
          = (out, s'\<lparr>activeReactiveEffectStack := butlast (activeReactiveEffectStack s')\<rparr>)"
    using a n x by (simp add: run_active)
  moreover have "\<forall>t k. e \<in> subscribers s' t k \<longleftrightarrow> (t, k) \<in> locations xs"
    using m k entry_facts(4) [OF a l] by simp
  ultimately show ?thesis using o r entry_facts(3) [OF a] by simp
qed

lemma track_adds_only_top:
  assumes "x \<in> set (depStore (track t type k st) d)" and "x \<notin> set (depStore st d)"
  shows "activeReactiveEffectStack st \<noteq> [] \<and> x = last (activeReactiveEffectStack st)"
proof (cases "shouldTrack st \<and> activeReactiveEffectStack st \<noteq> []")
  case True
  then show ?thesis
    using assms depStore_track [of st t type k d]
    by (auto simp: track_dep_def split: if_splits option.splits)
next
  case False
  then have "track t type k st = st" by (auto simp: track_def)
  then show ?thesis using assms by simp
qed

lemma subscribe_mem:
  "x \<in> set (depStore (subscribe p d st) d') \<longleftrightarrow> x \<in> set (depStore st d') \<or> (x = p \<and> d' = d)"
  by (auto simp: subscribe_def set_set_add)

lemma foldl_subscribe_mem:
  "x \<in> set (depStore (foldl (\<lambda>s d. subscribe p d s) st ds) d') \<longleftrightarrow>
     x \<in> set (depStore st d') \<or> (x = p \<and> d' \<in> set ds)"
  by (induction ds arbitrary: st) (auto simp: subscribe_mem)

lemma trackChildRun_mem:
  "x \<in> set (depStore (trackChildRun c st) d) \<longleftrightarrow>
     x \<in> set (depStore st d)
     \<or> (activeReactiveEffectStack st \<noteq> [] \<and> x = last (activeReactiveEffectStack st)
        \<and> d \<in> set (deps (the_effect st c)))"
  by (auto simp: trackChildRun_def Let_def foldl_subscribe_mem)


lemmas reader_defs =
  scenario_defs reader_made_def reader_prog_def cached_def cached_prog_def wf_store_def
  linked_def dep_at_def subscribers_def wrapped_def locations_def

lemma reader_made_facts:
  "active (the_effect reader_made 0) \<and> activeReactiveEffectStack reader_made = []
   \<and> wf_store reader_made \<and> linked 0 reader_made \<and> shouldTrack reader_made
   \<and> raw (the_effect reader_made 0) = 1 \<and> plain_reader reader_made (reader_prog 1)
   \<and> readLog reader_made = []"
  by (simp add: reader_defs)

lemma reader_run:
  "readLog (snd (run (sem reader_prog 1) 0 reader_made))
     = [([0], 0, Some (KStr ''a'')), ([0], 0, Some (KStr ''b''))]"
  by (simp add: reader_defs)


lemma reader_entry_track:
  "0 \<in> set (depStore (track 0 GET (Some (KStr ''a'')) (body_entry 0 reader_made)) 0)
   \<and> 0 \<notin> set (depStore (body_entry 0 reader_made) 0)
   \<and> activeReactiveEffectStack (body_entry 0 reader_made) = [0]"
  by (simp add: reader_defs)


section \<open>The invariant of the dependency graph\<close>

text \<open>
  \<open>graph_ok\<close> holds of \<open>init\<close>, and every engine function keeps it when
  the user functions it calls do; so it holds of every state that a program
  reaches from \<open>init\<close>, whatever the fuel.
\<close>

lemma graph_ok_cong: "graph_of st = graph_of st' \<Longrightarrow> graph_ok st = graph_ok st'"
  by (simp add: graph_of_def graph_ok_def wf_store_def dep_at_def linked_def the_effect_def)

lemma graph_ok_init: "graph_ok init"
  by (simp add: graph_ok_def wf_store_def dep_at_def linked_def the_effect_def init_def)

lemma linked_subscribe: "\<forall>e. linked e st \<Longrightarrow> linked e (subscribe p d st)"
  by (auto simp: linked_def subscribe_def set_deps_def set_add_def the_effect_def)

lemma linked_subscribe_foldl:
  "\<forall>e. linked e st \<Longrightarrow> linked e (foldl (\<lambda>s d. subscribe p d s) st ds)"
proof (induction ds arbitrary: st e)
  case Nil
  then show ?case by simp
next
  case (Cons d ds)
  have "\<forall>e. linked e (subscribe p d st)" using Cons.prems linked_subscribe by blast
  then show ?case using Cons.IH by simp
qed

lemma graph_rest_subscribe [simp]:
  "targetMap (subscribe p d st) = targetMap st"
  "nextDep (subscribe p d st) = nextDep st"
  "nextEffect (subscribe p d st) = nextEffect st"
  by (simp_all add: subscribe_def set_deps_def)

lemma dep_at_subscribe [simp]: "dep_at (subscribe p d st) = dep_at st"
  by (simp add: dep_at_def fun_eq_iff)

lemma wf_store_subscribe [simp]: "wf_store (subscribe p d st) = wf_store st"
  by (simp add: wf_store_def)

lemma graph_ok_subscribe:
  assumes "graph_ok st" and "p < nextEffect st"
  shows "graph_ok (subscribe p d st)"
  using assms linked_subscribe [of st _ p d]
  by (auto simp: graph_ok_def subscribe_mem)

lemma graph_ok_subscribe_foldl:
  assumes "graph_ok st" and "p < nextEffect st"
  shows "graph_ok (foldl (\<lambda>s d. subscribe p d s) st ds)"
  using assms
proof (induction ds arbitrary: st)
  case Nil
  then show ?case by simp
next
  case (Cons d ds)
  then show ?case using graph_ok_subscribe [of st p d] by simp
qed

lemma graph_ok_trackChildRun: "graph_ok st \<Longrightarrow> graph_ok (trackChildRun c st)"
  by (auto simp: trackChildRun_def Let_def graph_ok_def intro!: graph_ok_subscribe_foldl
      [unfolded graph_ok_def])

lemma deps_cleanup_other: "x \<noteq> e \<Longrightarrow> deps (the_effect (cleanup e st) x) = deps (the_effect st x)"
  by (simp add: cleanup_def Let_def set_deps_def the_effect_def effectTable_dep_delete_foldl)

lemma nextEffect_foldl_dep_delete: "nextEffect (foldl (dep_delete e) st ds) = nextEffect st"
  by (induction ds arbitrary: st) (simp_all add: dep_delete_def)

lemma nextEffect_cleanup [simp]: "nextEffect (cleanup e st) = nextEffect st"
  by (simp add: cleanup_def Let_def set_deps_def nextEffect_foldl_dep_delete)

lemma graph_ok_cleanup: "graph_ok st \<Longrightarrow> graph_ok (cleanup e st)"
proof -
  assume g: "graph_ok st"
  have l: "\<And>x. linked x (cleanup e st)"
  proof -
    fix x
    show "linked x (cleanup e st)"
    proof (cases "x = e")
      case True
      then show ?thesis using g cleanup_clears [of e st] by (simp add: linked_def graph_ok_def)
    next
      case False
      then show ?thesis
        using g depStore_cleanup_subset [of e st] deps_cleanup_other [of x e st]
        by (auto simp: linked_def graph_ok_def)
    qed
  qed
  have m: "\<And>d x. x \<in> set (depStore (cleanup e st) d) \<Longrightarrow> x < nextEffect st"
  proof -
    fix d x
    assume "x \<in> set (depStore (cleanup e st) d)"
    then have "x \<in> set (depStore st d)" using depStore_cleanup_subset [of e st d] by blast
    then show "x < nextEffect st" using g by (simp add: graph_ok_def)
  qed
  show ?thesis
    using g l m by (simp add: graph_ok_def)
qed

lemma graph_ok_track: "graph_ok st \<Longrightarrow> graph_ok (track t type k st)"
proof (cases "shouldTrack st \<and> activeReactiveEffectStack st \<noteq> []")
  case False
  assume "graph_ok st"
  moreover have "track t type k st = st" using False by (auto simp: track_def)
  ultimately show ?thesis by simp
next
  case True
  assume g: "graph_ok st"
  let ?p = "last (activeReactiveEffectStack st)"
  have p: "?p < nextEffect st" using g True by (simp add: graph_ok_def)
  have w: "wf_store (track t type k st)" using g True wf_store_track by (simp add: graph_ok_def)
  have l: "\<And>e. linked e (track t type k st)"
    using g True
    by (auto simp: graph_ok_def linked_def track_def getDepsMap_def getDep_def subscribe_def
        set_deps_def set_add_def the_effect_def Let_def split: option.splits if_splits)
  have m: "\<And>d x. x \<in> set (depStore (track t type k st) d) \<Longrightarrow> x < nextEffect st"
  proof -
    fix d x
    assume a: "x \<in> set (depStore (track t type k st) d)"
    show "x < nextEffect st"
    proof (cases "x \<in> set (depStore st d)")
      case True
      then show ?thesis using g by (simp add: graph_ok_def)
    next
      case False
      then show ?thesis using a p track_adds_only_top [of x t type k st d] by simp
    qed
  qed
  have n: "nextEffect (track t type k st) = nextEffect st"
    by (simp add: track_def getDepsMap_def getDep_def subscribe_def set_deps_def Let_def
        split: option.splits prod.splits)
  have r: "activeReactiveEffectStack (track t type k st) = activeReactiveEffectStack st"
    "\<And>e. active (the_effect (track t type k st) e) = active (the_effect st e)"
    by simp_all
  show ?thesis
    using g w l m n r by (simp add: graph_ok_def)
qed

lemma graph_ok_push:
  "graph_ok st \<Longrightarrow> active (the_effect st e) \<Longrightarrow>
   graph_ok (st\<lparr>activeReactiveEffectStack := activeReactiveEffectStack st @ [e]\<rparr>)"
  by (auto simp: graph_ok_def wf_store_def dep_at_def linked_def the_effect_def)
     (meson not_le_imp_less)

lemma graph_ok_pop:
  "graph_ok st \<Longrightarrow>
   graph_ok (st\<lparr>activeReactiveEffectStack := butlast (activeReactiveEffectStack st)\<rparr>)"
  by (auto simp: graph_ok_def wf_store_def dep_at_def linked_def the_effect_def
      dest: in_set_butlastD)

lemma graph_ok_calls [simp]: "graph_ok (st\<lparr>calls := x\<rparr>) = graph_ok st"
  by (rule graph_ok_cong) (simp add: graph_of_def)

lemma graph_ok_note_read [simp]: "graph_ok (note_read t k st) = graph_ok st"
  by (rule graph_ok_cong) (simp add: graph_of_def note_read_def)

lemma graph_ok_set_props [simp]: "graph_ok (set_props t ps st) = graph_ok st"
  by (rule graph_ok_cong) (simp add: graph_of_def set_props_def)

lemma graph_ok_set_cell [simp]: "graph_ok (set_cell c f st) = graph_ok st"
  by (rule graph_ok_cong) (simp add: graph_of_def set_cell_def)

lemma graph_ok_misc [simp]:
  "graph_ok (st\<lparr>shouldTrack := b\<rparr>) = graph_ok st"
  "graph_ok (st\<lparr>refStore := r\<rparr>) = graph_ok st"
  "graph_ok (st\<lparr>nextComputed := n\<rparr>) = graph_ok st"
  "graph_ok (st\<lparr>computedTable := ct\<rparr>) = graph_ok st"
  by (rule graph_ok_cong, simp add: graph_of_def)+

lemma graph_ok_deactivate:
  "graph_ok st \<Longrightarrow>
   graph_ok (st\<lparr>effectTable := (effectTable st)(e := (effectTable st e)\<lparr>active := False\<rparr>)\<rparr>)"
  by (auto simp: graph_ok_def wf_store_def dep_at_def linked_def the_effect_def)

lemma graph_ok_create:
  "graph_ok st \<Longrightarrow> graph_ok (snd (createReactiveEffect fn options st))"
  by (auto simp: createReactiveEffect_def Let_def graph_ok_def wf_store_def dep_at_def
      linked_def the_effect_def less_Suc_eq)

lemma gok_andThen:
  assumes "graph_ok (snd r)" and "\<And>v s. graph_ok s \<Longrightarrow> graph_ok (snd (k v s))"
  shows "graph_ok (snd (andThen r k))"
  using assms by (cases r) (auto simp: andThen_def split: outcome.splits)

lemma gok_invoke: "keeps_graph_ok call \<Longrightarrow> graph_ok st \<Longrightarrow> graph_ok (snd (invoke call f st))"
  by (simp add: keeps_graph_ok_def invoke_def)

lemma gok_run:
  assumes k: "keeps_graph_ok call" and g: "graph_ok st"
  shows "graph_ok (snd (run call e st))"
proof (cases "active (the_effect st e) \<and> e \<notin> set (activeReactiveEffectStack st)")
  case True
  let ?s1 = "cleanup e st"
  let ?s2 = "?s1\<lparr>activeReactiveEffectStack := activeReactiveEffectStack ?s1 @ [e]\<rparr>"
  have "graph_ok ?s2" using g True graph_ok_cleanup [of st e] graph_ok_push [of ?s1 e] by simp
  then have i: "graph_ok (snd (invoke call (raw (the_effect st e)) ?s2))"
    using k gok_invoke by blast
  obtain out s3 where r: "invoke call (raw (the_effect st e)) ?s2 = (out, s3)"
    by (cases "invoke call (raw (the_effect st e)) ?s2")
  have "graph_ok (s3\<lparr>activeReactiveEffectStack := butlast (activeReactiveEffectStack s3)\<rparr>)"
    using i r graph_ok_pop [of s3] by simp
  then show ?thesis
    using True r by (simp add: run_def Let_def)
next
  case False
  then show ?thesis using k g gok_invoke by (auto simp: run_def Let_def)
qed

lemma gok_forEach:
  assumes "\<And>x s. graph_ok s \<Longrightarrow> graph_ok (snd (f x s))" and "graph_ok st"
  shows "graph_ok (snd (forEach f xs st))"
  using assms(2)
proof (induction xs arbitrary: st)
  case Nil
  then show ?case by simp
next
  case (Cons x xs)
  obtain out s1 where r: "f x st = (out, s1)" by (cases "f x st")
  have "graph_ok s1" using assms(1) [of st x] Cons.prems r by simp
  then show ?case using r Cons.IH [of s1] by (cases out) simp_all
qed

lemma gok_run_scheduler:
  "keeps_graph_ok call \<Longrightarrow> graph_ok st \<Longrightarrow> graph_ok (snd (run_scheduler call s st))"
  by (cases s) (simp_all add: run_scheduler_def gok_invoke)

lemma gok_scheduleRun:
  "keeps_graph_ok call \<Longrightarrow> graph_ok st \<Longrightarrow> graph_ok (snd (scheduleRun call e st))"
  by (simp add: scheduleRun_def gok_run_scheduler gok_run split: option.splits)

lemma gok_trigger:
  "keeps_graph_ok call \<Longrightarrow> graph_ok st \<Longrightarrow> graph_ok (snd (trigger call t type k st))"
  by (simp add: trigger_forEach gok_forEach gok_scheduleRun)

lemma gok_stop:
  "keeps_graph_ok call \<Longrightarrow> graph_ok st \<Longrightarrow> graph_ok (snd (stop call e st))"
  by (auto simp: stop_def Let_def gok_invoke graph_ok_cleanup graph_ok_deactivate
      intro!: gok_andThen split: option.splits)

lemma gok_effect:
  "keeps_graph_ok call \<Longrightarrow> graph_ok st \<Longrightarrow> graph_ok (snd (effect call fn options st))"
proof -
  assume k: "keeps_graph_ok call" and g: "graph_ok st"
  have c: "\<And>f. graph_ok (snd (createReactiveEffect f options st))"
    using g graph_ok_create by blast
  show ?thesis
    using k c
    by (auto simp: effect_def gok_run g intro!: gok_andThen split: option.splits prod.splits
        dest!: arg_cong [where f = snd])
qed

lemma gok_computed_get:
  "keeps_graph_ok call \<Longrightarrow> graph_ok st \<Longrightarrow> graph_ok (snd (computed_get call c st))"
  by (auto simp: computed_get_def Let_def gok_run graph_ok_trackChildRun intro!: gok_andThen)

lemma gok_computed_set:
  "keeps_graph_ok call \<Longrightarrow> graph_ok st \<Longrightarrow> graph_ok (snd (computed_set call c v st))"
  by (simp add: computed_set_def gok_invoke split: option.splits)

lemma gok_computed_make:
  "keeps_graph_ok call \<Longrightarrow> graph_ok st \<Longrightarrow> graph_ok (snd (computed_make call g st))"
  by (auto simp: computed_make_def Let_def gok_effect intro!: gok_andThen split: val.splits)

lemma gok_ref_get_value:
  "keeps_graph_ok call \<Longrightarrow> graph_ok st \<Longrightarrow> graph_ok (snd (ref_get_value call r st))"
  by (simp add: ref_get_value_def gok_computed_get graph_ok_track split: val.splits)

lemma gok_get_trap:
  "keeps_graph_ok call \<Longrightarrow> graph_ok st \<Longrightarrow>
   graph_ok (snd (get_trap call ro t k receiver st))"
  by (simp add: get_trap_def Let_def gok_ref_get_value graph_ok_track)

lemma gok_Reflect_set: "graph_ok (snd (Reflect_set t k v receiver st)) = graph_ok st"
  by (simp add: Reflect_set_def split: val.splits)

lemma gok_set_trap:
  assumes k: "keeps_graph_ok call" and g: "graph_ok st"
  shows "graph_ok (snd (set_trap call t k v receiver st))"
proof -
  obtain result st1 where r: "Reflect_set t k (toRaw v) receiver st = (result, st1)"
    by (cases "Reflect_set t k (toRaw v) receiver st")
  have s1: "graph_ok st1" using gok_Reflect_set [of t k "toRaw v" receiver st] r g by simp
  show ?thesis
    using k g r s1
    by (auto simp: set_trap_def set_trap_with_def Let_def ref_set_value_def gok_trigger
        gok_computed_set intro!: gok_andThen split: val.splits)
qed

lemma gok_deleteProperty:
  "keeps_graph_ok call \<Longrightarrow> graph_ok st \<Longrightarrow> graph_ok (snd (deleteProperty call t k st))"
  by (auto simp: deleteProperty_def deleteProperty_with_def Reflect_deleteProperty_def Let_def
      gok_trigger intro!: gok_andThen)

lemma gok_exec:
  "keeps_graph_ok call \<Longrightarrow> graph_ok st \<Longrightarrow> graph_ok (snd (exec call p st))"
proof (induction p arbitrary: st)
  case (Has t k cont)
  then show ?case by (simp add: has_trap_def graph_ok_track)
next
  case (OwnKeys t cont)
  then show ?case by (simp add: ownKeys_def Let_def graph_ok_track)
qed (auto simp: gok_get_trap gok_set_trap gok_deleteProperty gok_run gok_invoke gok_effect
      gok_stop gok_computed_make gok_computed_get gok_computed_set readonly_set_trap_def
      readonly_deleteProperty_def pauseTracking_def resumeTracking_def
      intro!: gok_andThen)

lemma keeps_graph_ok_sem: "keeps_graph_ok (sem P n)"
proof (induction n)
  case 0
  then show ?case by (simp add: keeps_graph_ok_def)
next
  case (Suc n)
  then show ?case using gok_exec [of "sem P n"] by (simp add: keeps_graph_ok_def)
qed

lemma reachable_graph_ok: "graph_ok (snd (sem P n f init))"
  using keeps_graph_ok_sem [of P n] graph_ok_init by (simp add: keeps_graph_ok_def)

section \<open>stop, for a reaction that is not running\<close>

text \<open>
  A second \<open>stop\<close> does nothing.  In a state that satisfies \<open>graph_ok\<close>,
  \<open>stop\<close> retires an active reaction that is not running and has no
  \<open>onStop\<close> hook; and a retired reaction stays retired whatever user code
  runs afterwards: nothing subscribes it again.
\<close>

lemma retired_cong: "graph_of st = graph_of st' \<Longrightarrow> retired e st = retired e st'"
  by (simp add: graph_of_def retired_def the_effect_def)

lemma retired_cleanup: "retired e st \<Longrightarrow> retired e (cleanup x st)"
  using depStore_cleanup_subset [of x st] by (auto simp: retired_def)

lemma nextEffect_track [simp]: "nextEffect (track t type k st) = nextEffect st"
  by (simp add: track_def getDepsMap_def getDep_def subscribe_def set_deps_def Let_def
      split: option.splits prod.splits)

lemma retired_track: "retired e st \<Longrightarrow> retired e (track t type k st)"
proof -
  assume r: "retired e st"
  have "\<And>d. e \<notin> set (depStore (track t type k st) d)"
  proof
    fix d
    assume "e \<in> set (depStore (track t type k st) d)"
    moreover have "e \<notin> set (depStore st d)" using r by (simp add: retired_def)
    ultimately have "activeReactiveEffectStack st \<noteq> [] \<and> e = last (activeReactiveEffectStack st)"
      by (rule track_adds_only_top)
    then have "e \<in> set (activeReactiveEffectStack st)" by (metis last_in_set)
    then show False using r by (simp add: retired_def)
  qed
  then show ?thesis using r by (simp add: retired_def)
qed

lemma nextEffect_subscribe_foldl:
  "nextEffect (foldl (\<lambda>s d. subscribe p d s) st ds) = nextEffect st"
  by (induction ds arbitrary: st) simp_all

lemma active_subscribe_foldl:
  "active (the_effect (foldl (\<lambda>s d. subscribe p d s) st ds) x) = active (the_effect st x)"
  by (induction ds arbitrary: st) simp_all

lemma misc_trackChildRun [simp]:
  "nextEffect (trackChildRun c st) = nextEffect st"
  "active (the_effect (trackChildRun c st) x) = active (the_effect st x)"
  by (simp_all add: trackChildRun_def Let_def nextEffect_subscribe_foldl active_subscribe_foldl)

lemma retired_trackChildRun: "retired e st \<Longrightarrow> retired e (trackChildRun c st)"
proof -
  assume r: "retired e st"
  have "\<And>d. e \<notin> set (depStore (trackChildRun c st) d)"
  proof
    fix d
    assume "e \<in> set (depStore (trackChildRun c st) d)"
    then have "activeReactiveEffectStack st \<noteq> [] \<and> e = last (activeReactiveEffectStack st)"
      using r by (simp add: trackChildRun_mem retired_def)
    then have "e \<in> set (activeReactiveEffectStack st)" by (metis last_in_set)
    then show False using r by (simp add: retired_def)
  qed
  then show ?thesis using r by (simp add: retired_def)
qed

lemma retired_push:
  "retired e st \<Longrightarrow> active (the_effect st x) \<Longrightarrow>
   retired e (st\<lparr>activeReactiveEffectStack := activeReactiveEffectStack st @ [x]\<rparr>)"
  by (auto simp: retired_def)

lemma retired_pop:
  "retired e st \<Longrightarrow>
   retired e (st\<lparr>activeReactiveEffectStack := butlast (activeReactiveEffectStack st)\<rparr>)"
  by (auto simp: retired_def dest: in_set_butlastD)

lemma retired_irrelevant [simp]:
  "retired e (st\<lparr>calls := x\<rparr>) = retired e st"
  "retired e (note_read t k st) = retired e st"
  "retired e (set_props t ps st) = retired e st"
  "retired e (set_cell c f st) = retired e st"
  "retired e (st\<lparr>shouldTrack := b\<rparr>) = retired e st"
  "retired e (st\<lparr>refStore := r\<rparr>) = retired e st"
  "retired e (st\<lparr>nextComputed := n\<rparr>) = retired e st"
  "retired e (st\<lparr>computedTable := ct\<rparr>) = retired e st"
  by (rule retired_cong, simp add: graph_of_def note_read_def set_props_def set_cell_def)+

lemma retired_deactivate:
  "retired e st \<Longrightarrow>
   retired e (st\<lparr>effectTable := (effectTable st)(x := (effectTable st x)\<lparr>active := False\<rparr>)\<rparr>)"
  by (auto simp: retired_def the_effect_def)

lemma retired_create:
  "retired e st \<Longrightarrow> retired e (snd (createReactiveEffect fn options st))"
  by (auto simp: createReactiveEffect_def Let_def retired_def the_effect_def)

lemma ret_andThen:
  assumes "retired e (snd r)" and "\<And>v s. retired e s \<Longrightarrow> retired e (snd (k v s))"
  shows "retired e (snd (andThen r k))"
  using assms by (cases r) (auto simp: andThen_def split: outcome.splits)

lemma ret_invoke:
  "keeps_retired e call \<Longrightarrow> retired e st \<Longrightarrow> retired e (snd (invoke call f st))"
  by (simp add: keeps_retired_def invoke_def)

lemma ret_run:
  assumes k: "keeps_retired e call" and g: "retired e st"
  shows "retired e (snd (run call x st))"
proof (cases "active (the_effect st x) \<and> x \<notin> set (activeReactiveEffectStack st)")
  case True
  let ?s1 = "cleanup x st"
  let ?s2 = "?s1\<lparr>activeReactiveEffectStack := activeReactiveEffectStack ?s1 @ [x]\<rparr>"
  have "retired e ?s2" using g True retired_cleanup [of e st x] retired_push [of e ?s1 x] by simp
  then have i: "retired e (snd (invoke call (raw (the_effect st x)) ?s2))"
    using k ret_invoke by blast
  obtain out s3 where r: "invoke call (raw (the_effect st x)) ?s2 = (out, s3)"
    by (cases "invoke call (raw (the_effect st x)) ?s2")
  have "retired e (s3\<lparr>activeReactiveEffectStack := butlast (activeReactiveEffectStack s3)\<rparr>)"
    using i r retired_pop [of e s3] by simp
  then show ?thesis
    using True r by (simp add: run_def Let_def)
next
  case False
  then show ?thesis using k g ret_invoke by (auto simp: run_def Let_def)
qed

lemma ret_forEach:
  assumes "\<And>x s. retired e s \<Longrightarrow> retired e (snd (f x s))" and "retired e st"
  shows "retired e (snd (forEach f xs st))"
  using assms(2)
proof (induction xs arbitrary: st)
  case Nil
  then show ?case by simp
next
  case (Cons x xs)
  obtain out s1 where r: "f x st = (out, s1)" by (cases "f x st")
  have "retired e s1" using assms(1) [of st x] Cons.prems r by simp
  then show ?case using r Cons.IH [of s1] by (cases out) simp_all
qed

lemma ret_run_scheduler:
  "keeps_retired e call \<Longrightarrow> retired e st \<Longrightarrow> retired e (snd (run_scheduler call s st))"
  by (cases s) (simp_all add: run_scheduler_def ret_invoke)

lemma ret_scheduleRun:
  "keeps_retired e call \<Longrightarrow> retired e st \<Longrightarrow> retired e (snd (scheduleRun call x st))"
  by (simp add: scheduleRun_def ret_run_scheduler ret_run split: option.splits)

lemma ret_trigger:
  "keeps_retired e call \<Longrightarrow> retired e st \<Longrightarrow> retired e (snd (trigger call t type k st))"
  by (simp add: trigger_forEach ret_forEach ret_scheduleRun)

lemma ret_stop:
  "keeps_retired e call \<Longrightarrow> retired e st \<Longrightarrow> retired e (snd (stop call x st))"
  by (auto simp: stop_def Let_def ret_invoke retired_cleanup retired_deactivate
      intro!: ret_andThen split: option.splits)

lemma ret_effect:
  "keeps_retired e call \<Longrightarrow> retired e st \<Longrightarrow> retired e (snd (effect call fn options st))"
proof -
  assume k: "keeps_retired e call" and g: "retired e st"
  have c: "\<And>f. retired e (snd (createReactiveEffect f options st))"
    using g retired_create by blast
  show ?thesis
    using k c
    by (auto simp: effect_def ret_run g intro!: ret_andThen split: option.splits prod.splits
        dest!: arg_cong [where f = snd])
qed

lemma ret_computed_get:
  "keeps_retired e call \<Longrightarrow> retired e st \<Longrightarrow> retired e (snd (computed_get call c st))"
  by (auto simp: computed_get_def Let_def ret_run retired_trackChildRun intro!: ret_andThen)

lemma ret_computed_set:
  "keeps_retired e call \<Longrightarrow> retired e st \<Longrightarrow> retired e (snd (computed_set call c v st))"
  by (simp add: computed_set_def ret_invoke split: option.splits)

lemma ret_computed_make:
  "keeps_retired e call \<Longrightarrow> retired e st \<Longrightarrow> retired e (snd (computed_make call g st))"
  by (auto simp: computed_make_def Let_def ret_effect intro!: ret_andThen split: val.splits)

lemma ret_ref_get_value:
  "keeps_retired e call \<Longrightarrow> retired e st \<Longrightarrow> retired e (snd (ref_get_value call r st))"
  by (simp add: ref_get_value_def ret_computed_get retired_track split: val.splits)

lemma ret_get_trap:
  "keeps_retired e call \<Longrightarrow> retired e st \<Longrightarrow>
   retired e (snd (get_trap call ro t k receiver st))"
  by (simp add: get_trap_def Let_def ret_ref_get_value retired_track)

lemma ret_Reflect_set: "retired e (snd (Reflect_set t k v receiver st)) = retired e st"
  by (simp add: Reflect_set_def split: val.splits)

lemma ret_set_trap:
  assumes k: "keeps_retired e call" and g: "retired e st"
  shows "retired e (snd (set_trap call t k v receiver st))"
proof -
  obtain result st1 where r: "Reflect_set t k (toRaw v) receiver st = (result, st1)"
    by (cases "Reflect_set t k (toRaw v) receiver st")
  have s1: "retired e st1" using ret_Reflect_set [of e t k "toRaw v" receiver st] r g by simp
  show ?thesis
    using k g r s1
    by (auto simp: set_trap_def set_trap_with_def Let_def ref_set_value_def ret_trigger
        ret_computed_set intro!: ret_andThen split: val.splits)
qed

lemma ret_deleteProperty:
  "keeps_retired e call \<Longrightarrow> retired e st \<Longrightarrow> retired e (snd (deleteProperty call t k st))"
  by (auto simp: deleteProperty_def deleteProperty_with_def Reflect_deleteProperty_def Let_def
      ret_trigger intro!: ret_andThen)

lemma ret_exec:
  "keeps_retired e call \<Longrightarrow> retired e st \<Longrightarrow> retired e (snd (exec call p st))"
proof (induction p arbitrary: st)
  case (Has t k cont)
  then show ?case by (simp add: has_trap_def retired_track)
next
  case (OwnKeys t cont)
  then show ?case by (simp add: ownKeys_def Let_def retired_track)
qed (auto simp: ret_get_trap ret_set_trap ret_deleteProperty ret_run ret_invoke ret_effect
      ret_stop ret_computed_make ret_computed_get ret_computed_set readonly_set_trap_def
      readonly_deleteProperty_def pauseTracking_def resumeTracking_def
      intro!: ret_andThen)

lemma keeps_retired_sem: "keeps_retired e (sem P n)"
proof (induction n)
  case 0
  then show ?case by (simp add: keeps_retired_def)
next
  case (Suc n)
  then show ?case using ret_exec [of e "sem P n"] by (simp add: keeps_retired_def)
qed

lemma stop_again: "\<not> active (the_effect st e) \<Longrightarrow> stop call e st = (Ret VUndefined, st)"
  by (simp add: stop_def)

lemma stop_retires:
  assumes g: "graph_ok st" and a: "active (the_effect st e)"
    and n: "e \<notin> set (activeReactiveEffectStack st)" and h: "onStop (the_effect st e) = None"
  shows "stop call e st
           = (Ret VUndefined,
              (cleanup e st)\<lparr>effectTable :=
                (effectTable (cleanup e st))(e := (effectTable (cleanup e st) e)\<lparr>active := False\<rparr>)\<rparr>)"
    and "retired e (snd (stop call e st))"
proof -
  have o: "onStop (the_effect (cleanup e st) e) = None"
    using h by (simp add: cleanup_def Let_def set_deps_def the_effect_def
        effectTable_dep_delete_foldl)
  show s: "stop call e st
           = (Ret VUndefined,
              (cleanup e st)\<lparr>effectTable :=
                (effectTable (cleanup e st))(e := (effectTable (cleanup e st) e)\<lparr>active := False\<rparr>)\<rparr>)"
    using a o by (simp add: stop_def Let_def andThen_def)
  have l: "linked e st" and b: "e < nextEffect st"
    using g a by (auto simp: graph_ok_def) (meson not_le_imp_less)
  show "retired e (snd (stop call e st))"
    using s n b cleanup_clears [OF l] by (simp add: retired_def the_effect_def)
qed

subsection \<open>stop, for a reaction that is running\<close>

text \<open>
  C9, at the input where the code fails it.  Reaction 0 stops itself and then
  reads \<open>a\<close>: it is running, so \<open>track\<close> subscribes it although it is
  stopped.  After the whole program it is stopped and still a member of the
  dep of \<open>a\<close>, and the write of \<open>a\<close> has run its body a second time.
\<close>

theorem stop_inside_own_run:
  "\<not> active (the_effect (snd (sem stop_read_prog 3 0 demo_heap)) 0)
   \<and> targetMap (snd (sem stop_read_prog 3 0 demo_heap)) 0 = Some [(Some (KStr ''a''), 0)]
   \<and> depStore (snd (sem stop_read_prog 3 0 demo_heap)) 0 = [0]
   \<and> calls (snd (sem stop_read_prog 3 0 demo_heap)) = [1, 1]"
  by (simp add: scenario_defs)

section \<open>The scenarios of effect.spec.ts\<close>

text \<open>
  The model gives what the tests expect: \<open>childSpy\<close> is called five times
  and \<open>parentSpy\<close> three times; a stopped reaction is not run by a write
  and is still callable; a reaction that is in the dep of the key and in the
  dep of the iteration key runs once for the write that adds the key; a
  reaction with a scheduler is not run by a write; two reactions that write
  what the other reads come to rest.
\<close>

lemma nested_effects_scenario:
  "fst (sem nested_prog 4 0 nested_init) = Ret VUndefined
   \<and> calls (snd (sem nested_prog 4 0 nested_init)) = [1, 2, 1, 1, 2, 1, 2, 1]
   \<and> props (heap (snd (sem nested_prog 4 0 nested_init)) 9)
       = [(KStr ''num1'', VNum 4), (KStr ''num2'', VNum 10), (KStr ''num3'', VNum 7)]"
  by (simp add: nested_prog_def nested_init_def engine_defs)

lemma stop_scenario:
  "fst (sem stop_prog 4 0 stop_init) = Ret VUndefined
   \<and> calls (snd (sem stop_prog 4 0 stop_init)) = [1, 1, 1]
   \<and> props (heap (snd (sem stop_prog 4 0 stop_init)) 9)
       = [(KStr ''dummy'', VNum 3), (KStr ''d1'', VNum 2), (KStr ''d2'', VNum 2),
          (KStr ''d3'', VNum 3)]"
  by (simp add: stop_prog_def stop_init_def engine_defs)

lemma single_mutation_scenario:
  "fst (sem once_prog 4 0 init) = Ret VUndefined
   \<and> calls (snd (sem once_prog 4 0 init)) = [1, 1]
   \<and> props (heap (snd (sem once_prog 4 0 init)) 9) = [(KStr ''dummy'', VNum 16)]"
  by (simp add: once_prog_def engine_defs)

lemma scheduler_scenario:
  "fst (sem sched_prog 4 0 sched_init) = Ret VUndefined
   \<and> calls (snd (sem sched_prog 4 0 sched_init)) = [1, 2, 1]
   \<and> props (heap (snd (sem sched_prog 4 0 sched_init)) 9)
       = [(KStr ''dummy'', VNum 2), (KStr ''d1'', VNum 1), (KStr ''d2'', VNum 2)]"
  by (simp add: sched_prog_def sched_init_def engine_defs)

lemma no_loop_scenario:
  "fst (sem loop_prog 6 0 loop_init) = Ret VUndefined
   \<and> calls (snd (sem loop_prog 6 0 loop_init)) = [1, 2, 1, 2, 2, 1]
   \<and> props (heap (snd (sem loop_prog 6 0 loop_init)) 0)
       = [(KStr ''num1'', VNum 10), (KStr ''num2'', VNum 10)]"
  by (simp add: loop_prog_def loop_init_def engine_defs)

end
